theory Spec2Isabelle
  imports Complex_Main "HOL-Library.Sublist"
begin

section \<open>Strings\<close>

text \<open>
  A C string is modelled by the list of the bytes that precede its terminating NUL, so
  \<open>strlen\<close> is \<open>length\<close> and reaching the terminator is reaching the end of the list.
\<close>

abbreviation BS :: char where "BS \<equiv> CHR 0x08"
abbreviation ESC :: char where "ESC \<equiv> CHR 0x1B"
abbreviation BEL :: char where "BEL \<equiv> CHR 0x07"

section \<open>Cleanup helpers\<close>

subsection \<open>strip_overstrikes\<close>

text \<open>
  The source rewrites the string in place with a read pointer \<open>src\<close> and a write pointer
  \<open>dst\<close>, where \<open>dst \<le> src\<close> throughout, so no byte is overwritten before it is read.
  \<open>overstrike_loop out rest\<close> is the state of the \<open>for\<close> loop: \<open>out\<close> is the text
  between \<open>s\<close> and \<open>dst\<close>, \<open>rest\<close> the text from \<open>src\<close> on. \<open>if (dst > s) dst--\<close> drops
  the last byte of \<open>out\<close> when there is one, which is \<open>butlast\<close>.
\<close>

fun overstrike_loop :: "string \<Rightarrow> string \<Rightarrow> string" where
  "overstrike_loop out [] = out"
| "overstrike_loop out (c # rest) =
     (if c = BS then overstrike_loop (butlast out) rest
      else overstrike_loop (out @ [c]) rest)"

definition strip_overstrikes :: "string \<Rightarrow> string" where
  "strip_overstrikes s = overstrike_loop [] s"

subsection \<open>strip_ansi\<close>

text \<open>
  \<open>*p >= '@' && *p <= '~'\<close>: the bytes 0x40 to 0x7E. A byte above 0x7F fails the test
  whether \<open>char\<close> is signed (it is negative) or unsigned (it is above \<open>'~'\<close>).
\<close>

definition is_csi_final :: "char \<Rightarrow> bool" where
  "is_csi_final c = (0x40 \<le> (of_char c :: nat) \<and> (of_char c :: nat) \<le> 0x7E)"

text \<open>\<open>while (*p && !(*p >= '@' && *p <= '~')) p++; if (*p) p++;\<close>\<close>

fun skip_csi :: "string \<Rightarrow> string" where
  "skip_csi [] = []"
| "skip_csi (c # cs) = (if is_csi_final c then cs else skip_csi cs)"

text \<open>\<open>while (*p && (unsigned char)*p != 0x07) p++; if (*p) p++;\<close>\<close>

fun skip_osc :: "string \<Rightarrow> string" where
  "skip_osc [] = []"
| "skip_osc (c # cs) = (if c = BEL then cs else skip_osc cs)"

text \<open>
  The argument is the text from \<open>p\<close> on, the result what the loop appends at \<open>d\<close> from
  there to the end (\<open>d \<le> p\<close> throughout, so the copy never overwrites unread input).
\<close>

function strip_ansi :: "string \<Rightarrow> string" where
  "strip_ansi [] = []"
| "strip_ansi (c # cs) =
     (if c = ESC then
        (case cs of
           [] \<Rightarrow> []
         | x # r \<Rightarrow>
             if x = CHR ''['' then strip_ansi (skip_csi r)
             else if x = CHR '']'' then strip_ansi (skip_osc r)
             else strip_ansi r)
      else c # strip_ansi cs)"
  by pat_completeness auto
termination
proof (relation "measure length")
  have csi: "length (skip_csi r) \<le> length r" for r
    by (induction r) auto
  have osc: "length (skip_osc r) \<le> length r" for r
    by (induction r) auto
  show "wf (measure (length :: string \<Rightarrow> nat))" by simp
  show "(skip_csi r, c # cs) \<in> measure length" if "cs = x # r"
    for c :: char and cs x r
    using that csi [of r] by simp
  show "(skip_osc r, c # cs) \<in> measure length" if "cs = x # r"
    for c :: char and cs x r
    using that osc [of r] by simp
  show "(r, c # cs) \<in> measure length" if "cs = x # r"
    for c :: char and cs x r
    using that by simp
  show "(cs, c # cs) \<in> measure length" for c :: char and cs
    by simp
qed

section \<open>Wrapping\<close>

text \<open>
  \<open>segments\<close> is the array behind \<open>char **segments\<close>, restricted to the entries written
  so far; \<open>None\<close> is the NULL pointer of the initial \<open>{0, NULL}\<close>.
\<close>

record WrappedLine =
  count :: int
  segments :: "string list option"

text \<open>
  The \<open>while (pos < len)\<close> loop of \<open>wrap_line\<close>. \<open>strncpy(seg, line + pos, take)\<close>
  followed by \<open>seg[take] = 0\<close> copies \<open>take\<close> bytes from offset \<open>pos\<close>. Nothing in the
  loop itself makes \<open>pos\<close> advance when \<open>width \<le> 0\<close>, so it is a partial function:
  \<open>None\<close> stands for a loop that does not return.
\<close>

partial_function (option) wrap_loop ::
  "string \<Rightarrow> int \<Rightarrow> int \<Rightarrow> int \<Rightarrow> WrappedLine \<Rightarrow> WrappedLine option" where
  "wrap_loop line width len pos result =
     (if pos < len then
        (let remaining = len - pos;
             take_n = (if remaining > width then width else remaining);
             seg = take (nat take_n) (drop (nat pos) line)
         in wrap_loop line width len (pos + take_n)
              (result\<lparr>segments := map_option (\<lambda>segs. segs @ [seg]) (segments result),
                      count := count result + 1\<rparr>))
      else Some result)"

text \<open>
  The first argument is \<open>None\<close> for a NULL \<open>line\<close>. \<open>len = (int)strlen(line)\<close>: buffer
  lines are shorter than \<open>MAX_LINE_LEN\<close>, so the cast is exact.
\<close>

definition wrap_line :: "string option \<Rightarrow> int \<Rightarrow> WrappedLine option" where
  "wrap_line line width =
     (case line of
        None \<Rightarrow> Some \<lparr>count = 0, segments = None\<rparr>
      | Some l \<Rightarrow>
          if width \<le> 0 then Some \<lparr>count = 0, segments = None\<rparr>
          else let len = int (length l) in
            if len = 0 then Some \<lparr>count = 1, segments = Some ['''']\<rparr>
            else wrap_loop l width len 0 \<lparr>count = 0, segments = Some []\<rparr>)"

text \<open>
  The wrapper as the specification words it: take exactly \<open>w\<close> characters per segment
  until a shorter remainder is left. Used only to state what \<open>wrap_line\<close> computes.
\<close>

function chunks :: "nat \<Rightarrow> string \<Rightarrow> string list" where
  "chunks w s = (if w = 0 \<or> s = [] then [] else take w s # chunks w (drop w s))"
  by pat_completeness auto
termination
  by (relation "measure (\<lambda>(w, s). length s)") auto

declare chunks.simps [simp del]

section \<open>C library functions used by the program\<close>

text \<open>
  \<open>strrchr(s, c)\<close> is the part of \<open>s\<close> from the last \<open>c\<close> on and \<open>strstr(s, needle)\<close>
  the part from the first occurrence of \<open>needle\<close> on; \<open>None\<close> is NULL. The character
  classes are those of the C locale, which are also those of a UTF-8 locale on single
  bytes.
\<close>

fun strrchr :: "string \<Rightarrow> char \<Rightarrow> string option" where
  "strrchr [] c = None"
| "strrchr (x # xs) c =
     (case strrchr xs c of
        Some r \<Rightarrow> Some r
      | None \<Rightarrow> if x = c then Some (x # xs) else None)"

fun strstr :: "string \<Rightarrow> string \<Rightarrow> string option" where
  "strstr [] needle = (if needle = [] then Some [] else None)"
| "strstr (x # xs) needle =
     (if prefix needle (x # xs) then Some (x # xs) else strstr xs needle)"

definition isupper :: "char \<Rightarrow> bool" where
  "isupper c = (0x41 \<le> (of_char c :: nat) \<and> (of_char c :: nat) \<le> 0x5A)"

definition islower :: "char \<Rightarrow> bool" where
  "islower c = (0x61 \<le> (of_char c :: nat) \<and> (of_char c :: nat) \<le> 0x7A)"

definition isalpha :: "char \<Rightarrow> bool" where
  "isalpha c = (isupper c \<or> islower c)"

definition isdigit :: "char \<Rightarrow> bool" where
  "isdigit c = (0x30 \<le> (of_char c :: nat) \<and> (of_char c :: nat) \<le> 0x39)"

definition isalnum :: "char \<Rightarrow> bool" where
  "isalnum c = (isalpha c \<or> isdigit c)"

definition isspace :: "char \<Rightarrow> bool" where
  "isspace c = (c = CHR '' '' \<or> (0x09 \<le> (of_char c :: nat) \<and> (of_char c :: nat) \<le> 0x0D))"

section \<open>Language detection\<close>

text \<open>
  The enumeration is the one of the later version of the program; \<open>src/main.c\<close> has
  its first twelve tags. \<open>detect_language\<close> is the function of \<open>src/main.c\<close> and
  \<open>detect_language_ext\<close> the one of the later version, which knows more extensions.
  The first version of the program has the function of \<open>src/main.c\<close> as well.
  \<open>strcmp(ext, e) == 0\<close> is equality of the strings.
\<close>

datatype Language =
    LANG_NONE | LANG_C | LANG_CPP | LANG_PYTHON | LANG_JAVA | LANG_JS | LANG_TS
  | LANG_HTML | LANG_CSS | LANG_SHELL | LANG_MARKDOWN | LANG_MAN
  | LANG_RUST | LANG_GO | LANG_RUBY | LANG_PHP | LANG_SQL | LANG_JSON | LANG_XML | LANG_YAML

definition detect_language :: "string \<Rightarrow> Language" where
  "detect_language filepath =
     (case strrchr filepath CHR ''.'' of
        None \<Rightarrow> LANG_NONE
      | Some ext \<Rightarrow>
          if ext = ''.c'' \<or> ext = ''.h'' then LANG_C
          else if ext = ''.cpp'' \<or> ext = ''.cc'' \<or> ext = ''.hpp'' then LANG_CPP
          else if ext = ''.py'' then LANG_PYTHON
          else if ext = ''.java'' then LANG_JAVA
          else if ext = ''.js'' then LANG_JS
          else if ext = ''.ts'' \<or> ext = ''.tsx'' then LANG_TS
          else if ext = ''.html'' \<or> ext = ''.htm'' then LANG_HTML
          else if ext = ''.css'' then LANG_CSS
          else if ext = ''.sh'' \<or> ext = ''.bash'' \<or> ext = ''.zsh'' then LANG_SHELL
          else if ext = ''.md'' \<or> ext = ''.markdown'' then LANG_MARKDOWN
          else if strstr filepath ''/man/'' \<noteq> None \<or> strstr filepath ''.man'' \<noteq> None
            then LANG_MAN
          else LANG_NONE)"

definition detect_language_ext :: "string \<Rightarrow> Language" where
  "detect_language_ext filepath =
     (case strrchr filepath CHR ''.'' of
        None \<Rightarrow> LANG_NONE
      | Some ext \<Rightarrow>
          if ext = ''.c'' \<or> ext = ''.h'' then LANG_C
          else if ext = ''.cpp'' \<or> ext = ''.cc'' \<or> ext = ''.hpp'' \<or> ext = ''.cxx'' then LANG_CPP
          else if ext = ''.py'' then LANG_PYTHON
          else if ext = ''.java'' then LANG_JAVA
          else if ext = ''.js'' then LANG_JS
          else if ext = ''.ts'' \<or> ext = ''.tsx'' then LANG_TS
          else if ext = ''.html'' \<or> ext = ''.htm'' then LANG_HTML
          else if ext = ''.css'' then LANG_CSS
          else if ext = ''.sh'' \<or> ext = ''.bash'' \<or> ext = ''.zsh'' then LANG_SHELL
          else if ext = ''.md'' \<or> ext = ''.markdown'' then LANG_MARKDOWN
          else if ext = ''.rs'' then LANG_RUST
          else if ext = ''.go'' then LANG_GO
          else if ext = ''.rb'' then LANG_RUBY
          else if ext = ''.php'' then LANG_PHP
          else if ext = ''.sql'' then LANG_SQL
          else if ext = ''.json'' then LANG_JSON
          else if ext = ''.xml'' then LANG_XML
          else if ext = ''.yaml'' \<or> ext = ''.yml'' then LANG_YAML
          else if strstr filepath ''/man/'' \<noteq> None \<or> strstr filepath ''.man'' \<noteq> None
            then LANG_MAN
          else LANG_NONE)"


section \<open>Man section headers\<close>

fun man_header_loop :: "int \<Rightarrow> string \<Rightarrow> bool" where
  "man_header_loop letters [] = (letters \<ge> 3)"
| "man_header_loop letters (c # s) =
     (if c = CHR '' '' then man_header_loop letters s
      else if \<not> isalpha c then False
      else if \<not> isupper c then False
      else man_header_loop (letters + 1) s)"

definition is_man_section_header :: "string \<Rightarrow> bool" where
  "is_man_section_header s = man_header_loop 0 s"

section \<open>Keywords\<close>

definition is_c_keyword :: "string \<Rightarrow> bool" where
  "is_c_keyword word = (word \<in> set
     [''auto'', ''break'', ''case'', ''char'', ''const'', ''continue'', ''default'', ''do'',
      ''double'', ''else'', ''enum'', ''extern'', ''float'', ''for'', ''goto'', ''if'',
      ''int'', ''long'', ''register'', ''return'', ''short'', ''signed'', ''sizeof'', ''static'',
      ''struct'', ''switch'', ''typedef'', ''union'', ''unsigned'', ''void'', ''volatile'',
      ''while''])"

definition is_python_keyword :: "string \<Rightarrow> bool" where
  "is_python_keyword word = (word \<in> set
     [''False'', ''None'', ''True'', ''and'', ''as'', ''assert'', ''async'', ''await'',
      ''break'', ''class'', ''continue'', ''def'', ''del'', ''elif'', ''else'', ''except'',
      ''finally'', ''for'', ''from'', ''global'', ''if'', ''import'', ''in'', ''is'',
      ''lambda'', ''nonlocal'', ''not'', ''or'', ''pass'', ''raise'', ''return'', ''try'',
      ''while'', ''with'', ''yield''])"

definition is_js_keyword :: "string \<Rightarrow> bool" where
  "is_js_keyword word = (word \<in> set
     [''async'', ''await'', ''break'', ''case'', ''catch'', ''class'', ''const'', ''continue'',
      ''debugger'', ''default'', ''delete'', ''do'', ''else'', ''export'', ''extends'',
      ''finally'', ''for'', ''function'', ''if'', ''import'', ''in'', ''instanceof'', ''let'',
      ''new'', ''return'', ''super'', ''switch'', ''this'', ''throw'', ''try'', ''typeof'',
      ''var'', ''void'', ''while'', ''with'', ''yield''])"

section \<open>Highlighter\<close>

text \<open>
  The highlighter only talks to the screen. Its model returns the curses calls it makes,
  in order: \<open>Attron p b\<close> is \<open>attron(COLOR_PAIR(p))\<close>, with \<open>| A_BOLD\<close> when \<open>b\<close> holds.
\<close>

datatype draw_op =
    Attron nat bool
  | Attroff nat bool
  | Mvaddch int int char
  | Mvaddnstr int int string int

definition COLOR_NORMAL :: nat where "COLOR_NORMAL = 1"
definition COLOR_KEYWORD :: nat where "COLOR_KEYWORD = 2"
definition COLOR_STRING :: nat where "COLOR_STRING = 3"
definition COLOR_COMMENT :: nat where "COLOR_COMMENT = 4"
definition COLOR_NUMBER :: nat where "COLOR_NUMBER = 5"
definition COLOR_TYPE :: nat where "COLOR_TYPE = 6"
definition COLOR_FUNCTION :: nat where "COLOR_FUNCTION = 7"

text \<open>
  \<open>while (k < bound && x < max_x && P(s[k])) mvaddch(y, x++, s[k++]);\<close> The result is
  the calls made and the final \<open>k\<close> and \<open>x\<close>.
\<close>

function put_run ::
  "(char \<Rightarrow> bool) \<Rightarrow> int \<Rightarrow> string \<Rightarrow> int \<Rightarrow> int \<Rightarrow> int \<Rightarrow> int \<Rightarrow> draw_op list \<times> int \<times> int" where
  "put_run P y s bound max_x k x =
     (if k < bound \<and> x < max_x \<and> P (s ! nat k) then
        (case put_run P y s bound max_x (k + 1) (x + 1) of
           (ops, k', x') \<Rightarrow> (Mvaddch y x (s ! nat k) # ops, k', x'))
      else ([], k, x))"
  by pat_completeness auto
termination
  by (relation "measure (\<lambda>(P, y, s, bound, max_x, k, x). nat (bound - k))") auto

declare put_run.simps [simp del]

text \<open>\<open>while (j < len && P(line[j])) j++;\<close>\<close>

function scan_while :: "(char \<Rightarrow> bool) \<Rightarrow> string \<Rightarrow> int \<Rightarrow> int \<Rightarrow> int" where
  "scan_while P s len j = (if j < len \<and> P (s ! nat j) then scan_while P s len (j + 1) else j)"
  by pat_completeness auto
termination
  by (relation "measure (\<lambda>(P, s, len, j). nat (len - j))") auto

declare scan_while.simps [simp del]

definition draw_tok ::
  "int \<Rightarrow> int \<Rightarrow> string \<Rightarrow> int \<Rightarrow> int \<Rightarrow> int \<Rightarrow> nat \<Rightarrow> bool \<Rightarrow> draw_op list" where
  "draw_tok y x s i j max_x pair bold =
     (if x \<ge> max_x then []
      else [Attron pair bold] @ fst (put_run (\<lambda>_. True) y s j max_x i x) @ [Attroff pair bold])"

text \<open>One round of the \<open>while (i < len && x < line_width)\<close> loop of the man branch.\<close>

definition man_step ::
  "string \<Rightarrow> int \<Rightarrow> int \<Rightarrow> int \<Rightarrow> int \<Rightarrow> int \<Rightarrow> draw_op list \<times> int \<times> int" where
  "man_step line len line_width y i x =
     (let ch = line ! nat i in
      if isspace ch then ([Mvaddch y x ch], i + 1, x + 1)
      else if ch = CHR ''-'' then
        (let j = scan_while (\<lambda>c. \<not> isspace c) line len i
         in (draw_tok y x line i j line_width COLOR_NUMBER True, j, x + (j - i)))
      else if isalpha ch \<or> ch = CHR ''_'' then
        (let j = scan_while (\<lambda>c. isalnum c \<or> c = CHR ''_'' \<or> c = CHR ''-'') line len i;
             k = j;
             kk = scan_while isdigit line len (k + 2)
         in if k + 2 < len \<and> line ! nat k = CHR ''('' \<and> isdigit (line ! nat (k + 1))
               \<and> kk < len \<and> line ! nat kk = CHR '')''
            then (draw_tok y x line i j line_width COLOR_FUNCTION True
                    @ draw_tok y (x + (j - i)) line k (kk + 1) line_width COLOR_TYPE False,
                  kk + 1, x + (j - i) + (kk + 1 - k))
            else put_run (\<lambda>_. True) y line j line_width i x)
      else ([Mvaddch y x ch], i + 1, x + 1))"

partial_function (option) man_loop ::
  "string \<Rightarrow> int \<Rightarrow> int \<Rightarrow> int \<Rightarrow> int \<Rightarrow> int \<Rightarrow> draw_op list \<Rightarrow> draw_op list option" where
  "man_loop line len line_width y i x emitted =
     (if i < len \<and> x < line_width then
        (case man_step line len line_width y i x of
           (ops, i', x') \<Rightarrow> man_loop line len line_width y i' x' (emitted @ ops))
      else Some emitted)"


text \<open>
  The inner loop of a string literal: \<open>quote\<close> closes it unless the byte before it is a
  backslash.
\<close>

function string_loop ::
  "int \<Rightarrow> string \<Rightarrow> int \<Rightarrow> int \<Rightarrow> char \<Rightarrow> int \<Rightarrow> int \<Rightarrow> draw_op list \<times> int \<times> int" where
  "string_loop y line len line_width quote i col =
     (if i < len \<and> col < line_width then
        (let ch = line ! nat i in
         if ch = quote \<and> (i = 0 \<or> line ! nat (i - 1) \<noteq> CHR 0x5C)
         then ([Mvaddch y col ch], i + 1, col + 1)
         else (case string_loop y line len line_width quote (i + 1) (col + 1) of
                 (ops, i', col') \<Rightarrow> (Mvaddch y col ch # ops, i', col')))
      else ([], i, col))"
  by pat_completeness auto
termination
  by (relation "measure (\<lambda>(y, line, len, line_width, quote, i, col). nat (len - i))") auto

declare string_loop.simps [simp del]

text \<open>
  \<open>while (i < len && (isalnum(line[i]) || line[i] == '_') && w < 127) word[w++] = line[i++];\<close>
  with \<open>w\<close> the length of \<open>word\<close>.
\<close>

function word_scan :: "string \<Rightarrow> int \<Rightarrow> int \<Rightarrow> string \<Rightarrow> int \<times> string" where
  "word_scan line len i word =
     (if i < len \<and> (isalnum (line ! nat i) \<or> line ! nat i = CHR ''_'') \<and> int (length word) < 127
      then word_scan line len (i + 1) (word @ [line ! nat i])
      else (i, word))"
  by pat_completeness auto
termination
  by (relation "measure (\<lambda>(line, len, i, word). nat (len - i))") auto

declare word_scan.simps [simp del]

text \<open>
  One round of the \<open>while (i < len && col < line_width)\<close> loop for the other languages;
  the last component tells whether the round ends in \<open>break\<close>.
\<close>

definition code_step ::
  "string \<Rightarrow> Language \<Rightarrow> int \<Rightarrow> int \<Rightarrow> int \<Rightarrow> int \<Rightarrow> int \<Rightarrow> draw_op list \<times> int \<times> int \<times> bool" where
  "code_step line lang len line_width y i col =
     (let ch = line ! nat i in
      if (lang = LANG_C \<or> lang = LANG_CPP \<or> lang = LANG_JAVA \<or> lang = LANG_JS
            \<or> lang = LANG_TS \<or> lang = LANG_CSS)
         \<and> i + 1 < len \<and> line ! nat i = CHR ''/'' \<and> line ! nat (i + 1) = CHR ''/''
      then (case put_run (\<lambda>_. True) y line len line_width i col of
              (ops, j, col') \<Rightarrow>
                ([Attron COLOR_COMMENT False] @ ops @ [Attroff COLOR_COMMENT False], i, col', True))
      else if (lang = LANG_PYTHON \<or> lang = LANG_SHELL) \<and> ch = CHR ''#''
      then (case put_run (\<lambda>_. True) y line len line_width i col of
              (ops, j, col') \<Rightarrow>
                ([Attron COLOR_COMMENT False] @ ops @ [Attroff COLOR_COMMENT False], i, col', True))
      else if ch = CHR 0x22 \<or> ch = CHR 0x27
      then (case string_loop y line len line_width ch (i + 1) (col + 1) of
              (ops, i', col') \<Rightarrow>
                ([Attron COLOR_STRING False, Mvaddch y col ch] @ ops @ [Attroff COLOR_STRING False],
                 i', col', False))
      else if isdigit ch
      then (case put_run (\<lambda>c. isdigit c \<or> c = CHR ''.'') y line len line_width i col of
              (ops, i', col') \<Rightarrow>
                ([Attron COLOR_NUMBER False] @ ops @ [Attroff COLOR_NUMBER False], i', col', False))
      else if isalpha ch \<or> ch = CHR ''_''
      then (case word_scan line len i [] of
              (i', word) \<Rightarrow>
                (let is_keyword =
                       (if lang = LANG_C \<or> lang = LANG_CPP then is_c_keyword word
                        else if lang = LANG_PYTHON then is_python_keyword word
                        else if lang = LANG_JS \<or> lang = LANG_TS then is_js_keyword word
                        else False)
                 in case put_run (\<lambda>_. True) y word (int (length word)) line_width 0 col of
                      (ops, k, col') \<Rightarrow>
                        ((if is_keyword then [Attron COLOR_KEYWORD True] else [])
                           @ ops
                           @ (if is_keyword then [Attroff COLOR_KEYWORD True] else []),
                         i', col', False)))
      else ([Mvaddch y col ch], i + 1, col + 1, False))"

partial_function (option) code_loop ::
  "string \<Rightarrow> Language \<Rightarrow> int \<Rightarrow> int \<Rightarrow> int \<Rightarrow> int \<Rightarrow> int \<Rightarrow> draw_op list \<Rightarrow> draw_op list option" where
  "code_loop line lang len line_width y i col emitted =
     (if i < len \<and> col < line_width then
        (case code_step line lang len line_width y i col of
           (ops, i', col', stop) \<Rightarrow>
             if stop then Some (emitted @ ops)
             else code_loop line lang len line_width y i' col' (emitted @ ops))
      else Some emitted)"

text \<open>
  \<open>highlight_line\<close>; a NULL \<open>line\<close> is \<open>None\<close>. \<open>while (*p == ' ') p++\<close> is
  \<open>dropWhile\<close>.
\<close>

definition highlight_line ::
  "string option \<Rightarrow> Language \<Rightarrow> int \<Rightarrow> int \<Rightarrow> int \<Rightarrow> draw_op list option" where
  "highlight_line line lang y start_x line_width =
     (case line of
        None \<Rightarrow> Some []
      | Some l \<Rightarrow>
          if lang = LANG_MAN then
            (let p = dropWhile (\<lambda>c. c = CHR '' '') l in
             if is_man_section_header p
             then Some [Attron COLOR_KEYWORD True,
                        Mvaddnstr y start_x l (line_width - start_x),
                        Attroff COLOR_KEYWORD True]
             else man_loop l (int (length l)) line_width y 0 start_x [])
          else code_loop l lang (int (length l)) line_width y 0 start_x [])"

section \<open>Buffers and viewer state\<close>

definition MAX_BUFFERS :: int where "MAX_BUFFERS = 16"
definition MAX_LINES :: int where "MAX_LINES = 10000"
definition MAX_LINE_LEN :: int where "MAX_LINE_LEN = 2048"

text \<open>
  \<open>lines\<close> is the array \<open>char *lines[MAX_LINES]\<close>: entry \<open>i\<close> of the list is
  \<open>lines[i]\<close>, \<open>None\<close> a NULL pointer, \<open>Some s\<close> a pointer to the string \<open>s\<close>. The
  list holds the initial part of the array that has been written; slots beyond its end
  are not represented. \<open>buffers\<close> is the array \<open>Buffer buffers[MAX_BUFFERS]\<close> in
  the same way. The C \<open>int\<close> fields are \<open>int\<close>: they count lines or buffers or hold a
  flag, far from the limits of the machine type.
\<close>

record Buffer =
  lines :: "string option list"
  line_count :: int
  filepath :: string
  http_request :: string
  lang :: Language
  scroll_offset :: int
  is_active :: int
  is_http_buffer :: int

record ViewerState =
  buffers :: "Buffer list"
  buffer_count :: int
  current_buffer :: int
  search_term :: string
  search_line :: int
  search_match_count :: int
  current_match :: int
  show_line_numbers :: int
  wrap_enabled :: int
  copy_mode :: int
  copy_start_line :: int
  copy_end_line :: int

text \<open>\<open>buf->lines[i]\<close> read as a string.\<close>

definition line_text :: "Buffer \<Rightarrow> int \<Rightarrow> string" where
  "line_text buf i = the (lines buf ! nat i)"

text \<open>\<open>a[i] = v\<close> on an array of which the list is the written initial part.\<close>

definition array_store :: "'a option list \<Rightarrow> int \<Rightarrow> 'a \<Rightarrow> 'a option list" where
  "array_store a i v =
     (if nat i < length a then a[nat i := Some v]
      else a @ replicate (nat i - length a) None @ [Some v])"

subsection \<open>Loading\<close>

text \<open>\<open>while (n > 0 && (s[n-1] == ' ' || s[n-1] == '\t')) s[--n] = '\0';\<close>\<close>

function rtrim :: "string \<Rightarrow> string" where
  "rtrim s =
     (if s \<noteq> [] \<and> (last s = CHR '' '' \<or> last s = CHR 0x09) then rtrim (butlast s) else s)"
  by pat_completeness auto
termination
  by (relation "measure length") auto

declare rtrim.simps [simp del]

text \<open>
  The read loop of \<open>load_file\<close>. The first argument lists what the successive calls of
  \<open>fgets\<close> return until it fails; \<open>line[strcspn(line, "\n")] = 0\<close> cuts at the first
  newline.
\<close>

fun load_loop :: "string list \<Rightarrow> Buffer \<Rightarrow> Buffer" where
  "load_loop [] buf = buf"
| "load_loop (raw # rest) buf =
     (if line_count buf < MAX_LINES then
        (let line = rtrim (strip_ansi (strip_overstrikes (takeWhile (\<lambda>c. c \<noteq> CHR 0x0A) raw)))
         in load_loop rest
              (buf\<lparr>lines := array_store (lines buf) (line_count buf) line,
                   line_count := line_count buf + 1\<rparr>))
      else buf)"

text \<open>
  \<open>load_file\<close>. The file system is an argument: \<open>None\<close> when \<open>fopen\<close> fails, else the
  chunks \<open>fgets\<close> delivers. The result is the return value and the buffer.
\<close>

definition load_file :: "Buffer \<Rightarrow> string \<Rightarrow> string list option \<Rightarrow> int \<times> Buffer" where
  "load_file buf path file =
     (case file of
        None \<Rightarrow> (- 1, buf)
      | Some reads \<Rightarrow>
          (0, load_loop reads
                (buf\<lparr>line_count := 0,
                     scroll_offset := 0,
                     filepath := take 1023 path,
                     lang := detect_language path,
                     is_active := 1,
                     is_http_buffer := 0,
                     http_request := []\<rparr>)))"

subsection \<open>Freeing and closing\<close>

text \<open>
  The loop of \<open>free_buffer\<close>. The model keeps the strings handed to \<open>free\<close>, in order, so
  that what is released can be stated; \<open>free(NULL)\<close> releases nothing.
\<close>

function free_loop ::
  "string option list \<Rightarrow> int \<Rightarrow> int \<Rightarrow> string list \<Rightarrow> string list \<times> string option list" where
  "free_loop ls n i freed =
     (if i < n then
        free_loop (ls[nat i := None]) n (i + 1)
          (case ls ! nat i of Some s \<Rightarrow> freed @ [s] | None \<Rightarrow> freed)
      else (freed, ls))"
  by pat_completeness auto
termination
  by (relation "measure (\<lambda>(ls, n, i, freed). nat (n - i))") auto

declare free_loop.simps [simp del]

definition free_buffer :: "Buffer \<Rightarrow> string list \<times> Buffer" where
  "free_buffer buf =
     (case free_loop (lines buf) (line_count buf) 0 [] of
        (freed, ls) \<Rightarrow> (freed, buf\<lparr>lines := ls, line_count := 0, is_active := 0\<rparr>))"

text \<open>\<open>for (i = current; i < buffer_count - 1; i++) buffers[i] = buffers[i + 1];\<close>\<close>

function shift_loop :: "Buffer list \<Rightarrow> int \<Rightarrow> int \<Rightarrow> Buffer list" where
  "shift_loop bufs n i =
     (if i < n - 1 then shift_loop (bufs[nat i := bufs ! nat (i + 1)]) n (i + 1) else bufs)"
  by pat_completeness auto
termination
  by (relation "measure (\<lambda>(bufs, n, i). nat (n - i))") auto

declare shift_loop.simps [simp del]

text \<open>
  \<open>close_current_buffer\<close>. The result is the status line message, when one is shown,
  the strings freed, and the state.
\<close>

definition close_current_buffer :: "ViewerState \<Rightarrow> string option \<times> string list \<times> ViewerState" where
  "close_current_buffer state =
     (if buffer_count state \<le> 1 then (Some ''Cannot close the last buffer'', [], state)
      else
        (let current = current_buffer state in
         case free_buffer (buffers state ! nat current) of
           (freed, b) \<Rightarrow>
             (let bufs = shift_loop ((buffers state)[nat current := b]) (buffer_count state) current;
                  n = buffer_count state - 1
              in (None, freed,
                  state\<lparr>buffers := bufs,
                        buffer_count := n,
                        current_buffer := (if current \<ge> n then n - 1 else current)\<rparr>))))"

subsection \<open>Search\<close>

text \<open>The \<open>for\<close> loop of \<open>search_buffer\<close>, at counter \<open>i\<close> with the variable \<open>line\<close>.\<close>

function search_loop :: "Buffer \<Rightarrow> string \<Rightarrow> int \<Rightarrow> int \<Rightarrow> int \<Rightarrow> int" where
  "search_loop buf tm direction i line =
     (if i < line_count buf then
        (let line1 = (if line < 0 then line_count buf - 1 else line);
             line2 = (if line1 \<ge> line_count buf then 0 else line1)
         in if strstr (line_text buf line2) tm \<noteq> None then line2
            else search_loop buf tm direction (i + 1) (line2 + direction))
      else - 1)"
  by pat_completeness auto
termination
  by (relation "measure (\<lambda>(buf, tm, direction, i, line). nat (line_count buf - i))") auto

declare search_loop.simps [simp del]

definition search_buffer :: "ViewerState \<Rightarrow> string \<Rightarrow> int \<Rightarrow> int \<Rightarrow> int" where
  "search_buffer state tm start_line direction =
     (let buf = buffers state ! nat (current_buffer state)
      in if tm = [] then - 1 else search_loop buf tm direction 0 start_line)"

text \<open>
  \<open>for (i = 0; i < bound; i++) if (strstr(buf->lines[i], term)) count++;\<close> This loop
  occurs with \<open>bound = line_count\<close> in \<open>find_all_matches\<close> and with \<open>bound = match\<close> in
  \<open>prompt_search\<close>, \<open>next_match\<close> and \<open>prev_match\<close>.
\<close>

function count_loop :: "Buffer \<Rightarrow> string \<Rightarrow> int \<Rightarrow> int \<Rightarrow> int \<Rightarrow> int" where
  "count_loop buf tm bound i c =
     (if i < bound then
        count_loop buf tm bound (i + 1) (if strstr (line_text buf i) tm \<noteq> None then c + 1 else c)
      else c)"
  by pat_completeness auto
termination
  by (relation "measure (\<lambda>(buf, tm, bound, i, c). nat (bound - i))") auto

declare count_loop.simps [simp del]

definition find_all_matches :: "ViewerState \<Rightarrow> ViewerState" where
  "find_all_matches state =
     (let buf = buffers state ! nat (current_buffer state)
      in if search_term state = [] then state\<lparr>search_match_count := 0\<rparr>
         else state\<lparr>search_match_count := count_loop buf (search_term state) (line_count buf) 0 0\<rparr>)"

text \<open>\<open>while (len > 0 && isspace(input[len - 1])) input[--len] = '\0';\<close>\<close>

function trim_input :: "string \<Rightarrow> string" where
  "trim_input s = (if s \<noteq> [] \<and> isspace (last s) then trim_input (butlast s) else s)"
  by pat_completeness auto
termination
  by (relation "measure length") auto

declare trim_input.simps [simp del]

text \<open>
  \<open>prompt_search\<close>, with what \<open>getnstr\<close> reads as the second argument. The painting of
  the prompt is left out.
\<close>

definition prompt_search :: "ViewerState \<Rightarrow> string \<Rightarrow> ViewerState" where
  "prompt_search state typed =
     (let input = trim_input typed in
      if input \<noteq> [] then
        (let st = find_all_matches (state\<lparr>search_term := take 255 input\<rparr>);
             match = search_buffer st (search_term st) 0 1
         in if match \<ge> 0 then
              (let cur = nat (current_buffer st);
                   buf = (buffers st ! cur)\<lparr>scroll_offset := match\<rparr>
               in st\<lparr>buffers := (buffers st)[cur := buf],
                     current_match := count_loop buf (search_term st) match 0 0\<rparr>)
            else st)
      else state)"

definition next_match :: "ViewerState \<Rightarrow> ViewerState" where
  "next_match state =
     (if search_term state = [] then state
      else
        (let cur = nat (current_buffer state);
             buf = buffers state ! cur;
             match = search_buffer state (search_term state) (scroll_offset buf + 1) 1
         in if match \<ge> 0 then
              (let buf' = buf\<lparr>scroll_offset := match\<rparr>
               in state\<lparr>buffers := (buffers state)[cur := buf'],
                        current_match := count_loop buf' (search_term state) match 0 0\<rparr>)
            else state))"

definition prev_match :: "ViewerState \<Rightarrow> ViewerState" where
  "prev_match state =
     (if search_term state = [] then state
      else
        (let cur = nat (current_buffer state);
             buf = buffers state ! cur;
             match = search_buffer state (search_term state) (scroll_offset buf - 1) (- 1)
         in if match \<ge> 0 then
              (let buf' = buf\<lparr>scroll_offset := match\<rparr>
               in state\<lparr>buffers := (buffers state)[cur := buf'],
                        current_match := count_loop buf' (search_term state) match 0 0\<rparr>)
            else state))"

subsection \<open>Input\<close>

text \<open>Key codes: a character constant is its byte; the other three are from \<open>ncurses.h\<close>.\<close>

definition key :: "char \<Rightarrow> int" where "key c = of_char c"
definition KEY_DOWN :: int where "KEY_DOWN = 258"
definition KEY_UP :: int where "KEY_UP = 259"
definition KEY_BTAB :: int where "KEY_BTAB = 353"

text \<open>Division of C \<open>int\<close>s truncates towards zero.\<close>

definition c_div :: "int \<Rightarrow> int \<Rightarrow> int" where
  "c_div a b = sgn a * sgn b * (\<bar>a\<bar> div \<bar>b\<bar>)"

text \<open>The current buffer with a new scroll offset, as the writes through \<open>buf\<close> leave it.\<close>

definition set_scroll :: "ViewerState \<Rightarrow> int \<Rightarrow> ViewerState" where
  "set_scroll state off =
     (let cur = nat (current_buffer state)
      in state\<lparr>buffers := (buffers state)[cur := (buffers state ! cur)\<lparr>scroll_offset := off\<rparr>],
               copy_end_line := (if copy_mode state \<noteq> 0 then off else copy_end_line state)\<rparr>)"

text \<open>
  \<open>handle_input\<close>. Its arguments beside the state are \<open>*running\<close>, the key returned by
  \<open>getch\<close>, the screen height returned by \<open>getmaxy\<close> and the text typed at the search
  prompt; the result is the state and \<open>*running\<close>. The cases \<open>r\<close>, \<open>R\<close> and \<open>o\<close> run
  external programs to fill a buffer and are outside this model: the result is \<open>None\<close>
  for them. What \<open>x\<close> frees or reports and what \<open>y\<close> sends to the clipboard is dropped.
\<close>

definition handle_input ::
  "ViewerState \<Rightarrow> int \<Rightarrow> int \<Rightarrow> int \<Rightarrow> string \<Rightarrow> (ViewerState \<times> int) option" where
  "handle_input state running ch max_y typed =
     (let visible_lines = max_y - 3;
          buf = buffers state ! nat (current_buffer state)
      in
      if ch = key CHR ''q'' \<or> ch = key CHR ''Q'' then
        Some (state, if copy_mode state = 0 then 0 else running)
      else if ch = 27 then
        Some (if copy_mode state \<noteq> 0 then state\<lparr>copy_mode := 0\<rparr> else state, running)
      else if ch = key CHR ''r'' \<or> ch = key CHR ''R'' then
        (if copy_mode state = 0 then None else Some (state, running))
      else if ch = key CHR ''x'' \<or> ch = key CHR ''X'' then
        Some (if copy_mode state = 0 then snd (snd (close_current_buffer state)) else state, running)
      else if ch = key CHR ''v'' then
        Some (if copy_mode state = 0
              then state\<lparr>copy_mode := 1,
                         copy_start_line := scroll_offset buf,
                         copy_end_line := scroll_offset buf\<rparr>
              else state, running)
      else if ch = key CHR ''y'' then
        Some (if copy_mode state \<noteq> 0 then state\<lparr>copy_mode := 0\<rparr> else state, running)
      else if ch = key CHR ''l'' \<or> ch = key CHR ''L'' then
        Some (state\<lparr>show_line_numbers := (if show_line_numbers state = 0 then 1 else 0)\<rparr>, running)
      else if ch = key CHR ''w'' \<or> ch = key CHR ''W'' then
        Some (state\<lparr>wrap_enabled := (if wrap_enabled state = 0 then 1 else 0)\<rparr>, running)
      else if ch = key CHR ''/'' then
        Some (if copy_mode state = 0 then prompt_search state typed else state, running)
      else if ch = key CHR ''n'' then
        Some (if copy_mode state = 0 then next_match state else state, running)
      else if ch = key CHR ''N'' then
        Some (if copy_mode state = 0 then prev_match state else state, running)
      else if ch = key CHR ''o'' \<or> ch = key CHR ''O'' then
        (if copy_mode state = 0 then None else Some (state, running))
      else if ch = key CHR ''j'' \<or> ch = KEY_DOWN then
        Some (if scroll_offset buf < line_count buf - 1
              then set_scroll state (scroll_offset buf + 1) else state, running)
      else if ch = key CHR ''k'' \<or> ch = KEY_UP then
        Some (if scroll_offset buf > 0
              then set_scroll state (scroll_offset buf - 1) else state, running)
      else if ch = key CHR ''g'' then
        Some (set_scroll state 0, running)
      else if ch = key CHR ''G'' then
        (let off = line_count buf - visible_lines
         in Some (set_scroll state (if off < 0 then 0 else off), running))
      else if ch = key CHR ''d'' \<or> ch = 4 then
        (let off = scroll_offset buf + c_div visible_lines 2;
             off1 = (if off > line_count buf - visible_lines
                     then line_count buf - visible_lines else off)
         in Some (set_scroll state (if off1 < 0 then 0 else off1), running))
      else if ch = key CHR ''u'' \<or> ch = 21 then
        (let off = scroll_offset buf - c_div visible_lines 2
         in Some (set_scroll state (if off < 0 then 0 else off), running))
      else if ch = 9 then
        Some (if copy_mode state = 0 \<and> buffer_count state > 1
              then state\<lparr>current_buffer := (current_buffer state + 1) mod buffer_count state\<rparr>
              else state, running)
      else if ch = KEY_BTAB then
        Some (if copy_mode state = 0 \<and> buffer_count state > 1
              then state\<lparr>current_buffer :=
                           (if current_buffer state - 1 < 0 then buffer_count state - 1
                            else current_buffer state - 1)\<rparr>
              else state, running)
      else Some (state, running))"

subsection \<open>Sample states\<close>

text \<open>A buffer holding the given lines and a state holding the given buffers.\<close>

definition sample_buffer :: "string list \<Rightarrow> Buffer" where
  "sample_buffer ls =
     \<lparr>lines = map Some ls, line_count = int (length ls), filepath = ''sample'',
      http_request = [], lang = LANG_NONE, scroll_offset = 0, is_active = 1,
      is_http_buffer = 0\<rparr>"

definition sample_state :: "Buffer list \<Rightarrow> int \<Rightarrow> ViewerState" where
  "sample_state bs cur =
     \<lparr>buffers = bs, buffer_count = int (length bs), current_buffer = cur,
      search_term = [], search_line = 0, search_match_count = 0, current_match = 0,
      show_line_numbers = 1, wrap_enabled = 1, copy_mode = 0, copy_start_line = 0,
      copy_end_line = 0\<rparr>"

section \<open>The extension table\<close>

text \<open>
  The comparisons of \<open>detect_language\<close> read as a table from extension to tag, first
  for \<open>src/main.c\<close>, then for the longer chain of the later version.
\<close>

definition extension_table :: "(string \<times> Language) list" where
  "extension_table =
     [(''.c'', LANG_C), (''.h'', LANG_C),
      (''.cpp'', LANG_CPP), (''.cc'', LANG_CPP), (''.hpp'', LANG_CPP),
      (''.py'', LANG_PYTHON), (''.java'', LANG_JAVA), (''.js'', LANG_JS),
      (''.ts'', LANG_TS), (''.tsx'', LANG_TS),
      (''.html'', LANG_HTML), (''.htm'', LANG_HTML), (''.css'', LANG_CSS),
      (''.sh'', LANG_SHELL), (''.bash'', LANG_SHELL), (''.zsh'', LANG_SHELL),
      (''.md'', LANG_MARKDOWN), (''.markdown'', LANG_MARKDOWN)]"

definition extension_table_ext :: "(string \<times> Language) list" where
  "extension_table_ext =
     [(''.c'', LANG_C), (''.h'', LANG_C),
      (''.cpp'', LANG_CPP), (''.cc'', LANG_CPP), (''.hpp'', LANG_CPP), (''.cxx'', LANG_CPP),
      (''.py'', LANG_PYTHON), (''.java'', LANG_JAVA), (''.js'', LANG_JS),
      (''.ts'', LANG_TS), (''.tsx'', LANG_TS),
      (''.html'', LANG_HTML), (''.htm'', LANG_HTML), (''.css'', LANG_CSS),
      (''.sh'', LANG_SHELL), (''.bash'', LANG_SHELL), (''.zsh'', LANG_SHELL),
      (''.md'', LANG_MARKDOWN), (''.markdown'', LANG_MARKDOWN),
      (''.rs'', LANG_RUST), (''.go'', LANG_GO), (''.rb'', LANG_RUBY), (''.php'', LANG_PHP),
      (''.sql'', LANG_SQL), (''.json'', LANG_JSON), (''.xml'', LANG_XML),
      (''.yaml'', LANG_YAML), (''.yml'', LANG_YAML)]"

section \<open>Notions used to state the properties\<close>

text \<open>
  The index the search loop reads for a value \<open>i\<close> of its variable \<open>line\<close>, as the
  specification words it: below \<open>0\<close> it wraps to \<open>n - 1\<close>, from \<open>n\<close> on to \<open>0\<close>.
\<close>

definition wrap_index :: "int \<Rightarrow> int \<Rightarrow> int" where
  "wrap_index n i = (if i < 0 then n - 1 else if i \<ge> n then 0 else i)"

text \<open>The invariant of the specification: \<open>0 \<le> scroll_offset < max(1, line_count)\<close>.\<close>

definition scroll_invariant :: "Buffer \<Rightarrow> bool" where
  "scroll_invariant b = (0 \<le> scroll_offset b \<and> scroll_offset b < max 1 (line_count b))"

definition all_scroll_invariant :: "ViewerState \<Rightarrow> bool" where
  "all_scroll_invariant s = (\<forall>k. int k < buffer_count s \<longrightarrow> scroll_invariant (buffers s ! k))"

section \<open>Properties of the cleanup helpers\<close>

lemma overstrike_loop_append:
  "overstrike_loop out (xs @ ys) = overstrike_loop (overstrike_loop out xs) ys"
  by (induction xs arbitrary: out) auto

lemma overstrike_loop_no_bs:
  "BS \<notin> set out \<Longrightarrow> BS \<notin> set (overstrike_loop out rest)"
proof (induction rest arbitrary: out)
  case Nil
  then show ?case by simp
next
  case (Cons c rest)
  have "BS \<notin> set (butlast out)"
    using Cons.prems by (auto dest: in_set_butlastD)
  then show ?case
    using Cons by auto
qed

lemma overstrike_loop_pairs:
  "BS \<notin> set xs \<Longrightarrow>
   overstrike_loop out (concat (map (\<lambda>x. [x, BS, x]) xs)) = out @ xs"
  by (induction xs arbitrary: out) auto

lemma strip_ansi_no_esc: "ESC \<notin> set (strip_ansi s)"
  by (induction s rule: strip_ansi.induct) (auto split: list.splits)

lemma strip_ansi_fixed: "ESC \<notin> set s \<Longrightarrow> strip_ansi s = s"
  by (induction s) auto

text \<open>
  C2. For every input, malformed or truncated sequences included, the output of
  \<open>strip_ansi\<close> holds no ESC byte, so stripping it again changes nothing.
\<close>

theorem strip_ansi_idempotent:
  "strip_ansi (strip_ansi s) = strip_ansi s \<and> ESC \<notin> set (strip_ansi s)"
  using strip_ansi_no_esc [of s] strip_ansi_fixed [of "strip_ansi s"] by simp

text \<open>
  C8. \<open>strip_overstrikes\<close> scans left to right: a backspace removes the last byte written
  so far, when there is one, and is not copied; any other byte is appended. A leading
  backspace does nothing, no backspace survives, and a line made only of patterns
  \<open>x BS x\<close> (with \<open>x\<close> itself not a backspace) collapses to the characters \<open>x\<close>.
\<close>

theorem strip_overstrikes_collapse:
  "strip_overstrikes [] = []
   \<and> strip_overstrikes (s @ [c]) =
       (if c = BS then butlast (strip_overstrikes s) else strip_overstrikes s @ [c])
   \<and> strip_overstrikes (BS # s) = strip_overstrikes s
   \<and> BS \<notin> set (strip_overstrikes s)
   \<and> (BS \<notin> set xs \<longrightarrow>
        strip_overstrikes (concat (map (\<lambda>x. [x, BS, x]) xs)) = xs
        \<and> BS \<notin> set (strip_overstrikes (concat (map (\<lambda>x. [x, BS, x]) xs))))"
proof -
  have step: "strip_overstrikes (s @ [c]) =
       (if c = BS then butlast (strip_overstrikes s) else strip_overstrikes s @ [c])"
    by (simp add: strip_overstrikes_def overstrike_loop_append)
  have nobs: "BS \<notin> set (strip_overstrikes t)" for t
    using overstrike_loop_no_bs [of "[]" t] by (simp add: strip_overstrikes_def)
  have pairs: "BS \<notin> set xs \<Longrightarrow>
      strip_overstrikes (concat (map (\<lambda>x. [x, BS, x]) xs)) = xs"
    using overstrike_loop_pairs [of xs "[]"] by (simp add: strip_overstrikes_def)
  show ?thesis
    using step nobs pairs by (simp add: strip_overstrikes_def)
qed

theorem strip_overstrikes_collapse_witness:
  "BS \<notin> set ''ab''
   \<and> strip_overstrikes [CHR ''a'', BS, CHR ''a'', CHR ''b'', BS, CHR ''b''] = ''ab''
   \<and> strip_overstrikes (BS # ''_'') = ''_''
   \<and> strip_overstrikes (''_'' @ [BS]) = []"
  using strip_overstrikes_collapse [of "''_''" BS "''ab''"]
  by (simp add: strip_overstrikes_def)

section \<open>Properties of the wrapper\<close>

lemma wrap_loop_chunks:
  assumes w: "0 < width"
  shows "0 \<le> pos \<Longrightarrow> pos \<le> int (length line) \<Longrightarrow>
    wrap_loop line width (int (length line)) pos \<lparr>count = c, segments = Some segs\<rparr> =
      Some \<lparr>count = c + int (length (chunks (nat width) (drop (nat pos) line))),
            segments = Some (segs @ chunks (nat width) (drop (nat pos) line))\<rparr>"
proof (induction "nat (int (length line) - pos)" arbitrary: pos c segs rule: less_induct)
  case less
  show ?case
  proof (cases "pos < int (length line)")
    case False
    then have "drop (nat pos) line = []" using less.prems by simp
    then show ?thesis using False
      by (subst wrap_loop.simps) (simp add: chunks.simps)
  next
    case True
    define rest where "rest = drop (nat pos) line"
    define tk where "tk = (if int (length line) - pos > width then width else int (length line) - pos)"
    have rest_len: "int (length rest) = int (length line) - pos"
      using less.prems by (simp add: rest_def)
    have tk_pos: "0 < tk" "tk \<le> int (length line) - pos" "tk \<le> width"
      using True w by (auto simp: tk_def)
    have seg: "take (nat tk) rest = take (nat width) rest"
      using rest_len by (auto simp: tk_def)
    have dr: "drop (nat (pos + tk)) line = drop (nat width) rest"
    proof (cases "int (length line) - pos > width")
      case True
      then show ?thesis using less.prems w
        by (simp add: tk_def rest_def nat_add_distrib add.commute)
    next
      case False
      then have "drop (nat width) rest = []" using rest_len by simp
      moreover have "drop (nat (pos + tk)) line = []" using False by (simp add: tk_def)
      ultimately show ?thesis by simp
    qed
    have ne: "rest \<noteq> []" using rest_len True by auto
    have ch: "chunks (nat width) rest = take (nat width) rest # chunks (nat width) (drop (nat width) rest)"
      using ne w by (subst chunks.simps) simp
    have IH: "wrap_loop line width (int (length line)) (pos + tk)
        \<lparr>count = c + 1, segments = Some (segs @ [take (nat tk) rest])\<rparr> =
      Some \<lparr>count = c + 1 + int (length (chunks (nat width) (drop (nat (pos + tk)) line))),
            segments = Some ((segs @ [take (nat tk) rest]) @ chunks (nat width) (drop (nat (pos + tk)) line))\<rparr>"
      using less.prems tk_pos by (intro less.hyps) auto
    have "wrap_loop line width (int (length line)) pos \<lparr>count = c, segments = Some segs\<rparr> =
       wrap_loop line width (int (length line)) (pos + tk)
        \<lparr>count = c + 1, segments = Some (segs @ [take (nat tk) rest])\<rparr>"
      using True by (subst wrap_loop.simps) (simp add: Let_def tk_def rest_def)
    also note IH
    finally show ?thesis
      unfolding dr seg rest_def [symmetric] ch by simp
  qed
qed

lemma concat_chunks: "0 < w \<Longrightarrow> concat (chunks w s) = s"
proof (induction w s rule: chunks.induct)
  case (1 w s)
  then show ?case by (subst chunks.simps) auto
qed

lemma length_chunks: "0 < w \<Longrightarrow> length (chunks w s) = (length s + w - 1) div w"
proof (induction w s rule: chunks.induct)
  case (1 w s)
  show ?case
  proof (cases "s = []")
    case True
    then show ?thesis using 1 by (subst chunks.simps) simp
  next
    case False
    show ?thesis
    proof (cases "length s \<le> w")
      case True
      then have "drop w s = []" by simp
      then have "chunks w s = [take w s]" using False 1 by (subst chunks.simps) (simp add: chunks.simps)
      moreover have "(length s + w - 1) div w = 1" using True False 1(2)
        by (cases s) (auto simp: div_eq_dividend_iff Suc_le_eq  le_div_geq)
      ultimately show ?thesis by simp
    next
      case F2: False
      have "length (chunks w s) = Suc ((length (drop w s) + w - 1) div w)"
        using False 1 by (subst chunks.simps) simp
      also have "\<dots> = (length s + w - 1) div w" using F2 1(2)
        by (simp add: le_div_geq)
      finally show ?thesis .
    qed
  qed
qed

lemma nth_chunks:
  "0 < w \<Longrightarrow> i < length (chunks w s) \<Longrightarrow> chunks w s ! i = take w (drop (i * w) s)"
proof (induction w s arbitrary: i rule: chunks.induct)
  case (1 w s)
  have ne: "s \<noteq> []" using "1.prems" by (auto simp: chunks.simps)
  then have ch: "chunks w s = take w s # chunks w (drop w s)"
    using "1.prems" by (subst chunks.simps) simp
  show ?case
  proof (cases i)
    case 0
    then show ?thesis using ch by simp
  next
    case (Suc j)
    then have "j < length (chunks w (drop w s))" using "1.prems" ch by simp
    then have "chunks w (drop w s) ! j = take w (drop (j * w) (drop w s))"
      using "1.IH" [of j] ne "1.prems" by simp
    then show ?thesis using Suc ch by (simp add: add.commute)
  qed
qed

lemma chunks_nonempty: "0 < w \<Longrightarrow> x \<in> set (chunks w s) \<Longrightarrow> x \<noteq> []"
proof (induction w s rule: chunks.induct)
  case (1 w s)
  show ?case
  proof (cases "s = []")
    case True
    then show ?thesis using "1.prems" by (simp add: chunks.simps)
  next
    case False
    then have ch: "chunks w s = take w s # chunks w (drop w s)"
      using "1.prems" by (subst chunks.simps) simp
    then show ?thesis using 1 False by auto
  qed
qed

lemma wrap_line_chunks:
  assumes "0 < width" "line \<noteq> []"
  shows "wrap_line (Some line) width =
    Some \<lparr>count = int (length (chunks (nat width) line)),
          segments = Some (chunks (nat width) line)\<rparr>"
  using assms wrap_loop_chunks [of width 0 line 0 "[]"]
  by (simp add: wrap_line_def)

lemma neg_div: "0 < (w::int) \<Longrightarrow> - (- n div w) = (n + w - 1) div w"
proof -
  assume w: "0 < w"
  define q where "q = n div w"
  define r where "r = n mod w"
  have n: "n = q * w + r" by (simp add: q_def r_def)
  have r: "0 \<le> r" "r < w" using w by (auto simp: r_def)
  show ?thesis
  proof (cases "r = 0")
    case True
    have "(q * w + (w - 1)) div w = q" using w
      by (simp add: div_pos_pos_trivial)
    moreover have "((- q) * w) div w = - q"
      by (rule nonzero_mult_div_cancel_right) (use w in simp)
    moreover have "- n = (- q) * w" using True n by simp
    ultimately show ?thesis using True n by (simp add: algebra_simps)
  next
    case False
    have "(- q - 1) * w + (w - r) = - n" using n by (simp add: algebra_simps)
    then have "- n div w = ((- q - 1) * w + (w - r)) div w"
      by (rule arg_cong [OF sym])
    also have "\<dots> = - q - 1" using r False w
      by (subst div_mult_self3) (auto simp: div_pos_pos_trivial)
    finally have a: "- n div w = - q - 1" .
    have "n + w - 1 = (q + 1) * w + (r - 1)" using n by (simp add: algebra_simps)
    then have "(n + w - 1) div w = ((q + 1) * w + (r - 1)) div w"
      by (rule arg_cong)
    also have "\<dots> = q + 1" using r False w
      by (subst div_mult_self3) (auto simp: div_pos_pos_trivial)
    finally show ?thesis using a by simp
  qed
qed

lemma ceiling_div: "0 < (w::int) \<Longrightarrow> \<lceil>real_of_int n / real_of_int w\<rceil> = (n + w - 1) div w"
  using neg_div [of w n] by (simp add: ceiling_divide_eq_div)

text \<open>
  C1. For \<open>width > 0\<close>, \<open>wrap_line\<close> returns, and its segments are the consecutive pieces
  of \<open>width\<close> characters of the line: segment \<open>i\<close> is the \<open>width\<close> characters from offset
  \<open>i * width\<close>, every segment but the last has exactly \<open>width\<close> characters, the last is
  not empty and not longer, their concatenation is the line, and a non-empty line gives
  \<open>ceil (len / width)\<close> segments. An empty line gives the single empty segment. With
  \<open>width \<le> 0\<close> the call fails: it returns the empty result \<open>{0, NULL}\<close>.
\<close>

theorem wrap_line_segments:
  "(0 < width \<longrightarrow>
      (\<exists>segs. wrap_line (Some line) width =
                 Some \<lparr>count = int (length segs), segments = Some segs\<rparr>
         \<and> concat segs = line
         \<and> (\<forall>i < length segs. segs ! i = take (nat width) (drop (i * nat width) line))
         \<and> (\<forall>i. Suc i < length segs \<longrightarrow> length (segs ! i) = nat width)
         \<and> (line \<noteq> [] \<longrightarrow>
               int (length segs) = \<lceil>real (length line) / real_of_int width\<rceil>
               \<and> last segs \<noteq> [] \<and> length (last segs) \<le> nat width)
         \<and> (line = [] \<longrightarrow> segs = [''''])))
   \<and> (width \<le> 0 \<longrightarrow> wrap_line any width = Some \<lparr>count = 0, segments = None\<rparr>)
   \<and> wrap_line (Some ''abcdefgh'') 3 =
       Some \<lparr>count = 3, segments = Some [''abc'', ''def'', ''gh'']\<rparr>
   \<and> wrap_line (Some []) 5 = Some \<lparr>count = 1, segments = Some ['''']\<rparr>"
proof (intro conjI impI)
  assume w: "0 < width"
  show "\<exists>segs. wrap_line (Some line) width =
                 Some \<lparr>count = int (length segs), segments = Some segs\<rparr>
         \<and> concat segs = line
         \<and> (\<forall>i < length segs. segs ! i = take (nat width) (drop (i * nat width) line))
         \<and> (\<forall>i. Suc i < length segs \<longrightarrow> length (segs ! i) = nat width)
         \<and> (line \<noteq> [] \<longrightarrow>
               int (length segs) = \<lceil>real (length line) / real_of_int width\<rceil>
               \<and> last segs \<noteq> [] \<and> length (last segs) \<le> nat width)
         \<and> (line = [] \<longrightarrow> segs = [''''])"
  proof (cases "line = []")
    case True
    then show ?thesis using w by (intro exI [of _ "['''']"]) (simp add: wrap_line_def)
  next
    case False
    define segs where "segs = chunks (nat width) line"
    have nw: "0 < nat width" using w by simp
    have ret: "wrap_line (Some line) width =
        Some \<lparr>count = int (length segs), segments = Some segs\<rparr>"
      unfolding segs_def using w False by (rule wrap_line_chunks)
    have cat: "concat segs = line"
      unfolding segs_def using nw by (rule concat_chunks)
    have nth: "segs ! i = take (nat width) (drop (i * nat width) line)" if "i < length segs" for i
      using that nw unfolding segs_def by (simp add: nth_chunks)
    have len: "length segs = (length line + nat width - 1) div nat width"
      unfolding segs_def using nw by (rule length_chunks)
    have full: "length (segs ! i) = nat width" if "Suc i < length segs" for i
    proof -
      have "Suc (Suc i) \<le> (length line + nat width - 1) div nat width"
        using that len by simp
      then have "Suc (Suc i) * nat width \<le> length line + nat width - 1"
        using nw by (simp add: less_eq_div_iff_mult_less_eq)
      then have "i * nat width + nat width \<le> length line" using nw by simp
      then show ?thesis using nth [of i] that by simp
    qed
    have segs_ne: "segs \<noteq> []"
      using False nw by (simp add: segs_def chunks.simps)
    have last_ne: "last segs \<noteq> []"
      using chunks_nonempty [OF nw, of "last segs" line] segs_ne by (simp add: segs_def)
    have last_le: "length (last segs) \<le> nat width"
      using nth [of "length segs - 1"] segs_ne by (simp add: last_conv_nth)
    have "int (length segs) = (int (length line) + width - 1) div width"
    proof -
      have "int ((length line + nat width - 1) div nat width) =
            int (length line + nat width - 1) div int (nat width)"
        by (simp add: zdiv_int)
      also have "int (length line + nat width - 1) = int (length line) + width - 1"
        using w by (simp add: of_nat_diff)
      finally show ?thesis using len w by simp
    qed
    then have ceil: "int (length segs) = \<lceil>real (length line) / real_of_int width\<rceil>"
      using ceiling_div [OF w, of "int (length line)"] by simp
    show ?thesis
      using ret cat nth full ceil last_ne last_le False
      by (intro exI [of _ segs]) simp
  qed
next
  assume "width \<le> 0"
  then show "wrap_line any width = Some \<lparr>count = 0, segments = None\<rparr>"
    by (simp add: wrap_line_def split: option.splits)
next
  show "wrap_line (Some ''abcdefgh'') 3 =
       Some \<lparr>count = 3, segments = Some [''abc'', ''def'', ''gh'']\<rparr>"
    using wrap_line_chunks [of 3 "''abcdefgh''"] by (simp add: chunks.simps)
next
  show "wrap_line (Some []) 5 = Some \<lparr>count = 1, segments = Some ['''']\<rparr>"
    by (simp add: wrap_line_def)
qed

theorem wrap_line_segments_witness:
  "(0::int) < 2 \<and> (0::int) \<le> 0
   \<and> wrap_line (Some ''abcde'') 2 = Some \<lparr>count = 3, segments = Some [''ab'', ''cd'', ''e'']\<rparr>
   \<and> wrap_line (Some ''abcde'') 0 = Some \<lparr>count = 0, segments = None\<rparr>"
proof -
  obtain segs where
    ret: "wrap_line (Some ''abcde'') 2 = Some \<lparr>count = int (length segs), segments = Some segs\<rparr>"
    and nth: "\<forall>i < length segs. segs ! i = take (nat 2) (drop (i * nat 2) ''abcde'')"
    and len: "int (length segs) = \<lceil>real (length ''abcde'') / real_of_int 2\<rceil>"
    using wrap_line_segments [of 2 "''abcde''" "Some ''abcde''"] by auto
  have "\<lceil>(5::real) / 2\<rceil> = 3" by (simp add: ceiling_eq_iff)
  then have l3: "length segs = 3" using len by simp
  have e0: "segs ! 0 = ''ab''" and e1: "segs ! 1 = ''cd''" and e2: "segs ! 2 = ''e''"
    using nth l3 by simp_all
  have "segs ! i = [''ab'', ''cd'', ''e''] ! i" if "i < 3" for i
  proof -
    from that consider "i = 0" | "i = 1" | "i = 2" by linarith
    then show ?thesis using e0 e1 e2 by cases simp_all
  qed
  then have "segs = [''ab'', ''cd'', ''e'']"
    using l3 by (intro nth_equalityI) simp_all
  moreover have "wrap_line (Some ''abcde'') 0 = Some \<lparr>count = 0, segments = None\<rparr>"
    using wrap_line_segments [of 0 "''abcde''" "Some ''abcde''"] by simp
  ultimately show ?thesis using ret by simp
qed

section \<open>Properties of the highlighter and of language detection\<close>

lemma scan_while_ge: "j \<le> scan_while P s len j"
proof (induction "nat (len - j)" arbitrary: j rule: less_induct)
  case less
  show ?case
  proof (cases "j < len \<and> P (s ! nat j)")
    case True
    then have "scan_while P s len j = scan_while P s len (j + 1)"
      by (subst scan_while.simps) simp
    moreover have "j + 1 \<le> scan_while P s len (j + 1)"
      using True by (intro less) simp
    ultimately show ?thesis by simp
  next
    case False
    then show ?thesis by (subst scan_while.simps) auto
  qed
qed

lemma scan_while_gt: "j < len \<Longrightarrow> P (s ! nat j) \<Longrightarrow> j < scan_while P s len j"
  using scan_while_ge [of "j + 1" P s len] by (subst scan_while.simps) simp

lemma put_run_ge: "k \<le> fst (snd (put_run P y s bound max_x k x))"
proof (induction "nat (bound - k)" arbitrary: k x rule: less_induct)
  case less
  show ?case
  proof (cases "k < bound \<and> x < max_x \<and> P (s ! nat k)")
    case True
    have "k + 1 \<le> fst (snd (put_run P y s bound max_x (k + 1) (x + 1)))"
      using True by (intro less) simp
    then show ?thesis
      using True by (subst put_run.simps) (simp add: split_beta)
  next
    case False
    then show ?thesis by (subst put_run.simps) auto
  qed
qed

lemma put_run_gt:
  "k < bound \<Longrightarrow> x < max_x \<Longrightarrow> P (s ! nat k) \<Longrightarrow>
   k < fst (snd (put_run P y s bound max_x k x))"
  using put_run_ge [of "k + 1" P y s bound max_x "x + 1"]
  by (subst put_run.simps) (simp add: split_beta)

lemma string_loop_ge: "i \<le> fst (snd (string_loop y line len line_width quote i col))"
proof (induction "nat (len - i)" arbitrary: i col rule: less_induct)
  case less
  show ?case
  proof (cases "i < len \<and> col < line_width")
    case True
    have "i + 1 \<le> fst (snd (string_loop y line len line_width quote (i + 1) (col + 1)))"
      using True by (intro less) simp
    then show ?thesis
      using True by (subst string_loop.simps) (simp add: split_beta Let_def)
  next
    case False
    then show ?thesis by (subst string_loop.simps) auto
  qed
qed

lemma word_scan_ge: "i \<le> fst (word_scan line len i word)"
proof (induction "nat (len - i)" arbitrary: i word rule: less_induct)
  case less
  show ?case
  proof (cases "i < len \<and> (isalnum (line ! nat i) \<or> line ! nat i = CHR ''_'') \<and> int (length word) < 127")
    case True
    have "i + 1 \<le> fst (word_scan line len (i + 1) (word @ [line ! nat i]))"
      using True by (intro less) simp
    then show ?thesis
      using True by (subst word_scan.simps) simp
  next
    case False
    then show ?thesis by (subst word_scan.simps) auto
  qed
qed

lemma word_scan_gt:
  "i < len \<Longrightarrow> isalpha (line ! nat i) \<or> line ! nat i = CHR ''_'' \<Longrightarrow>
   i < fst (word_scan line len i [])"
  using word_scan_ge [of "i + 1" line len "[line ! nat i]"]
  by (subst word_scan.simps) (auto simp: isalnum_def)

lemma isspace_dash: "\<not> isspace CHR ''-''"
  by (simp add: isspace_def)

lemma man_step_advances:
  assumes "i < len" "x < line_width"
  shows "i < fst (snd (man_step line len line_width y i x))"
proof -
  define ch where "ch = line ! nat i"
  consider (sp) "isspace ch" | (dash) "\<not> isspace ch" "ch = CHR ''-''"
    | (word) "\<not> isspace ch" "ch \<noteq> CHR ''-''" "isalpha ch \<or> ch = CHR ''_''"
    | (other) "\<not> isspace ch" "ch \<noteq> CHR ''-''" "\<not> (isalpha ch \<or> ch = CHR ''_'')"
    by blast
  then show ?thesis
  proof cases
    case sp
    then show ?thesis by (simp add: man_step_def ch_def [symmetric])
  next
    case dash
    have "i < scan_while (\<lambda>c. \<not> isspace c) line len i"
      using assms dash by (intro scan_while_gt) (simp_all add: ch_def)
    then show ?thesis using dash by (simp add: man_step_def ch_def [symmetric] Let_def)
  next
    case word
    define j where "j = scan_while (\<lambda>c. isalnum c \<or> c = CHR ''_'' \<or> c = CHR ''-'') line len i"
    define kk where "kk = scan_while isdigit line len (j + 2)"
    have j: "i < j"
      unfolding j_def using assms word by (intro scan_while_gt) (auto simp: ch_def isalnum_def)
    have kk: "j + 2 \<le> kk" unfolding kk_def by (rule scan_while_ge)
    have pr: "i < fst (snd (put_run (\<lambda>_. True) y line j line_width i x))"
      using j assms by (intro put_run_gt) simp_all
    show ?thesis
      using word j kk pr
      by (simp add: man_step_def ch_def [symmetric] Let_def j_def [symmetric] kk_def [symmetric])
  next
    case other
    then show ?thesis by (simp add: man_step_def ch_def [symmetric])
  qed
qed

lemma man_loop_returns: "\<exists>ops. man_loop line len line_width y i x emitted = Some ops"
proof (induction "nat (len - i)" arbitrary: i x emitted rule: less_induct)
  case less
  show ?case
  proof (cases "i < len \<and> x < line_width")
    case False
    then show ?thesis by (subst man_loop.simps) auto
  next
    case True
    obtain ops i' x' where st: "man_step line len line_width y i x = (ops, i', x')"
      by (cases "man_step line len line_width y i x") auto
    have "i < i'" using man_step_advances [of i len x line_width line y] True st by simp
    then have "\<exists>r. man_loop line len line_width y i' x' (emitted @ ops) = Some r"
      using True by (intro less) simp
    then show ?thesis using True st by (subst man_loop.simps) simp
  qed
qed

lemma code_step_advances:
  assumes "i < len" "col < line_width"
  shows "(case code_step line lg len line_width y i col of
            (ops, i', col', stop) \<Rightarrow> stop \<or> i < i')"
proof -
  have s: "i + 1 \<le> fst (snd (string_loop y line len line_width q (i + 1) (col + 1)))" for q
    by (rule string_loop_ge)
  have d: "isdigit (line ! nat i) \<Longrightarrow>
      i < fst (snd (put_run (\<lambda>c. isdigit c \<or> c = CHR ''.'') y line len line_width i col))"
    using assms by (intro put_run_gt) simp_all
  have w: "isalpha (line ! nat i) \<or> line ! nat i = CHR ''_'' \<Longrightarrow>
      i < fst (word_scan line len i [])"
    using assms by (intro word_scan_gt) simp_all
  show ?thesis
    using s [of "line ! nat i"] d w
    by (simp add: code_step_def Let_def split_beta) 
qed

lemma code_loop_returns: "\<exists>ops. code_loop line lg len line_width y i col emitted = Some ops"
proof (induction "nat (len - i)" arbitrary: i col emitted rule: less_induct)
  case less
  show ?case
  proof (cases "i < len \<and> col < line_width")
    case False
    then show ?thesis by (subst code_loop.simps) auto
  next
    case True
    obtain ops i' col' stop where st: "code_step line lg len line_width y i col = (ops, i', col', stop)"
      by (cases "code_step line lg len line_width y i col") auto
    show ?thesis
    proof (cases stop)
      case True
      then show ?thesis using \<open>i < len \<and> col < line_width\<close> st by (subst code_loop.simps) simp
    next
      case False
      then have "i < i'" using code_step_advances [of i len col line_width line lg y] True st by simp
      then have "\<exists>r. code_loop line lg len line_width y i' col' (emitted @ ops) = Some r"
        using True by (intro less) simp
      then show ?thesis using True st False by (subst code_loop.simps) simp
    qed
  qed
qed

lemma highlight_line_returns: "\<exists>ops. highlight_line line lg y start_x line_width = Some ops"
  using man_loop_returns code_loop_returns
  by (simp add: highlight_line_def Let_def split: option.splits)

lemma isalpha_space: "\<not> isalpha CHR '' ''"
  by (simp add: isalpha_def isupper_def islower_def)

lemma man_header_loop_iff:
  "man_header_loop letters s =
     ((\<forall>c \<in> set s. isalpha c \<or> c = CHR '' '')
      \<and> 3 \<le> letters + int (length (filter isalpha s))
      \<and> (\<forall>c \<in> set s. isalpha c \<longrightarrow> isupper c))"
proof (induction s arbitrary: letters)
  case Nil
  then show ?case by simp
next
  case (Cons c s)
  show ?case
  proof (cases "c = CHR '' ''")
    case True
    then show ?thesis using Cons [of letters] isalpha_space by simp
  next
    case False
    then show ?thesis using Cons [of "letters + 1"] by auto
  qed
qed

text \<open>
  C9. \<open>is_man_section_header\<close> holds exactly of the strings made of letters and spaces
  only, with at least three letters, all of them upper case. In man mode a line that is
  such a string once its leading spaces are skipped is drawn by one call, the whole line
  in the keyword colour and bold, and nothing else is drawn.
\<close>

theorem man_section_header:
  "is_man_section_header s =
     ((\<forall>c \<in> set s. isalpha c \<or> c = CHR '' '')
      \<and> 3 \<le> length (filter isalpha s)
      \<and> (\<forall>c \<in> set s. isalpha c \<longrightarrow> isupper c))
   \<and> (is_man_section_header (dropWhile (\<lambda>c. c = CHR '' '') l) \<longrightarrow>
        highlight_line (Some l) LANG_MAN y start_x line_width =
          Some [Attron COLOR_KEYWORD True,
                Mvaddnstr y start_x l (line_width - start_x),
                Attroff COLOR_KEYWORD True])
   \<and> is_man_section_header ''NAME''
   \<and> is_man_section_header ''SEE ALSO''
   \<and> \<not> is_man_section_header ''Name''
   \<and> \<not> is_man_section_header ''AB''"
proof -
  have ex: "is_man_section_header ''NAME''" "is_man_section_header ''SEE ALSO''"
    "\<not> is_man_section_header ''Name''" "\<not> is_man_section_header ''AB''"
    by (simp_all add: is_man_section_header_def isalpha_def isupper_def islower_def)
  show ?thesis
    using ex by (simp add: is_man_section_header_def man_header_loop_iff highlight_line_def)
qed

theorem man_section_header_witness:
  "is_man_section_header (dropWhile (\<lambda>c. c = CHR '' '') ''  SEE ALSO'')
   \<and> highlight_line (Some ''  SEE ALSO'') LANG_MAN 4 7 80 =
       Some [Attron 2 True, Mvaddnstr 4 7 ''  SEE ALSO'' 73, Attroff 2 True]"
proof -
  have h: "is_man_section_header (dropWhile (\<lambda>c. c = CHR '' '') ''  SEE ALSO'')"
    by (simp add: is_man_section_header_def isalpha_def isupper_def islower_def)
  show ?thesis
    using h man_section_header [of "''  SEE ALSO''" "''  SEE ALSO''" 4 7 80]
    by (simp add: COLOR_KEYWORD_def)
qed

lemma strstr_sublist: "(strstr s needle \<noteq> None) = sublist needle s"
  by (induction s) (auto simp: sublist_Cons_right)

lemma strrchr_None: "(strrchr s c = None) = (c \<notin> set s)"
  by (induction s) (auto split: option.splits)

lemma strrchr_Some:
  "(strrchr s c = Some e) = (\<exists>pre rest. s = pre @ e \<and> e = c # rest \<and> c \<notin> set rest)"
proof (induction s arbitrary: e)
  case Nil
  then show ?case by simp
next
  case (Cons x xs)
  show ?case
  proof (cases "strrchr xs c")
    case None
    then have notin: "c \<notin> set xs" by (simp add: strrchr_None)
    show ?thesis
    proof
      assume "strrchr (x # xs) c = Some e"
      then have "x = c" "e = x # xs" using None by (auto split: if_splits)
      then show "\<exists>pre rest. x # xs = pre @ e \<and> e = c # rest \<and> c \<notin> set rest"
        using notin by (intro exI [of _ "[]"] exI [of _ xs]) simp
    next
      assume "\<exists>pre rest. x # xs = pre @ e \<and> e = c # rest \<and> c \<notin> set rest"
      then obtain pre rest where *: "x # xs = pre @ e" "e = c # rest" "c \<notin> set rest" by blast
      have "pre = []"
      proof (cases pre)
        case Nil then show ?thesis .
      next
        case (Cons p ps)
        then have "xs = ps @ c # rest" using * by simp
        then show ?thesis using notin by simp
      qed
      then show "strrchr (x # xs) c = Some e" using * None by auto
    qed
  next
    case (Some r)
    then obtain pre rest where r: "xs = pre @ r" "r = c # rest" "c \<notin> set rest"
      using Cons.IH [of r] by blast
    show ?thesis
    proof
      assume "strrchr (x # xs) c = Some e"
      then have "e = r" using Some by simp
      then show "\<exists>pre rest. x # xs = pre @ e \<and> e = c # rest \<and> c \<notin> set rest"
        using r by (intro exI [of _ "x # pre"] exI [of _ rest]) simp
    next
      assume "\<exists>pre rest. x # xs = pre @ e \<and> e = c # rest \<and> c \<notin> set rest"
      then obtain pre' rest' where *: "x # xs = pre' @ e" "e = c # rest'" "c \<notin> set rest'" by blast
      have "pre' \<noteq> []"
      proof
        assume "pre' = []"
        then have "xs = rest'" using * by simp
        moreover have "c \<in> set xs" using r by simp
        ultimately show False using * by simp
      qed
      then obtain ps where "pre' = x # ps" "xs = ps @ e" using * by (cases pre') auto
      then have "strrchr xs c = Some e" using Cons.IH [of e] * by blast
      then show "strrchr (x # xs) c = Some e" by simp
    qed
  qed
qed

lemma detect_language_lookup:
  "detect_language path =
     (case strrchr path CHR ''.'' of
        None \<Rightarrow> LANG_NONE
      | Some ext \<Rightarrow>
          (case map_of extension_table ext of
             Some l \<Rightarrow> l
           | None \<Rightarrow>
               if sublist ''/man/'' path \<or> sublist ''.man'' path
               then LANG_MAN else LANG_NONE))"
  unfolding detect_language_def extension_table_def strstr_sublist
  by (simp split: option.splits)

lemma detect_language_ext_lookup:
  "detect_language_ext path =
     (case strrchr path CHR ''.'' of
        None \<Rightarrow> LANG_NONE
      | Some ext \<Rightarrow>
          (case map_of extension_table_ext ext of
             Some l \<Rightarrow> l
           | None \<Rightarrow>
               if sublist ''/man/'' path \<or> sublist ''.man'' path
               then LANG_MAN else LANG_NONE))"
  unfolding detect_language_ext_def extension_table_ext_def strstr_sublist
  by (simp split: option.splits)

text \<open>
  C6. The code does not do what the claim says, and the claim is what the code is meant
  to do: in the first version of the program the fallback carries the comment
  \<open>Check for man pages (no extension, contains certain patterns)\<close>, yet a path without
  a dot leaves the function at \<open>if (!ext) return LANG_NONE;\<close> and never reaches the
  fallback. So \<open>/usr/man/ls\<close>, which contains \<open>/man/\<close> and matches no extension, is tagged
  \<open>LANG_NONE\<close>, while \<open>/usr/man/ls.1\<close> is tagged \<open>LANG_MAN\<close>.
\<close>

theorem detect_language_no_extension:
  "strrchr ''/usr/man/ls'' CHR ''.'' = None
   \<and> strstr ''/usr/man/ls'' ''/man/'' \<noteq> None
   \<and> detect_language ''/usr/man/ls'' = LANG_NONE
   \<and> detect_language_ext ''/usr/man/ls'' = LANG_NONE
   \<and> detect_language ''/usr/man/ls.1'' = LANG_MAN
   \<and> detect_language_ext ''/usr/man/ls.1'' = LANG_MAN"
  by (simp add: detect_language_def detect_language_ext_def)

theorem detect_language_no_extension_witness:
  "detect_language ''/usr/man/ls'' \<noteq> LANG_MAN
   \<and> detect_language_ext ''/usr/man/ls'' \<noteq> LANG_MAN
   \<and> detect_language ''/usr/man/ls.1'' = LANG_MAN"
  using detect_language_no_extension by simp

text \<open>
  What \<open>detect_language\<close> computes on every path. A path without a dot is tagged
  \<open>LANG_NONE\<close>. For a path with a dot, the extension is the text from the last dot on;
  the tag is the table's entry for exactly that extension (byte for byte, so case
  matters), and when the table has none it is \<open>LANG_MAN\<close> if the path contains \<open>/man/\<close>
  or \<open>.man\<close> and \<open>LANG_NONE\<close> if not.
\<close>

theorem detect_language_by_extension:
  "(CHR ''.'' \<notin> set path \<longrightarrow>
      detect_language path = LANG_NONE \<and> detect_language_ext path = LANG_NONE)
   \<and> (path = pre @ CHR ''.'' # rest \<and> CHR ''.'' \<notin> set rest \<longrightarrow>
        detect_language path =
          (case map_of extension_table (CHR ''.'' # rest) of
             Some l \<Rightarrow> l
           | None \<Rightarrow> if sublist ''/man/'' path \<or> sublist ''.man'' path
                      then LANG_MAN else LANG_NONE)
        \<and> detect_language_ext path =
          (case map_of extension_table_ext (CHR ''.'' # rest) of
             Some l \<Rightarrow> l
           | None \<Rightarrow> if sublist ''/man/'' path \<or> sublist ''.man'' path
                      then LANG_MAN else LANG_NONE))"
proof (intro conjI impI)
  assume "CHR ''.'' \<notin> set path"
  then have "strrchr path CHR ''.'' = None" by (simp add: strrchr_None)
  then show "detect_language path = LANG_NONE" "detect_language_ext path = LANG_NONE"
    by (simp_all add: detect_language_lookup detect_language_ext_lookup)
next
  assume "path = pre @ CHR ''.'' # rest \<and> CHR ''.'' \<notin> set rest"
  then have e: "strrchr path CHR ''.'' = Some (CHR ''.'' # rest)"
    using strrchr_Some [of path "CHR ''.''" "CHR ''.'' # rest"] by blast
  show "detect_language path =
          (case map_of extension_table (CHR ''.'' # rest) of
             Some l \<Rightarrow> l
           | None \<Rightarrow> if sublist ''/man/'' path \<or> sublist ''.man'' path
                      then LANG_MAN else LANG_NONE)"
    using e by (simp add: detect_language_lookup)
  show "detect_language_ext path =
          (case map_of extension_table_ext (CHR ''.'' # rest) of
             Some l \<Rightarrow> l
           | None \<Rightarrow> if sublist ''/man/'' path \<or> sublist ''.man'' path
                      then LANG_MAN else LANG_NONE)"
    using e by (simp add: detect_language_ext_lookup)
qed

theorem detect_language_by_extension_witness:
  "CHR ''.'' \<notin> set ''/usr/man/ls''
   \<and> CHR ''.'' \<notin> set ''1''
   \<and> detect_language ''/usr/man/ls'' = LANG_NONE
   \<and> detect_language ''/usr/man/ls.1'' = LANG_MAN
   \<and> detect_language_ext ''/usr/man/ls.1'' = LANG_MAN
   \<and> detect_language ''src/main.c'' = LANG_C
   \<and> detect_language ''src/main.C'' = LANG_NONE"
proof -
  have m: "sublist ''/man/'' ''/usr/man/ls.1''"
    unfolding strstr_sublist [symmetric] by simp
  have t: "map_of extension_table ''.1'' = None" "map_of extension_table_ext ''.1'' = None"
    by (simp_all add: extension_table_def extension_table_ext_def)
  show ?thesis
    using detect_language_by_extension [of "''/usr/man/ls''" "''/usr/man/ls''" "''1''"]
      detect_language_by_extension [of "''/usr/man/ls.1''" "''/usr/man/ls''" "''1''"] m t
    by (simp add: detect_language_def)
qed

section \<open>Properties of the buffer store\<close>

lemma free_loop_eq:
  "0 \<le> i \<Longrightarrow> n \<le> int (length ls) \<Longrightarrow>
   free_loop ls n i freed =
     (freed @ map the (filter (\<lambda>x. x \<noteq> None) (take (nat n - nat i) (drop (nat i) ls))),
      take (nat i) ls @ replicate (nat n - nat i) None @ drop (max (nat i) (nat n)) ls)"
proof (induction "nat (n - i)" arbitrary: i ls freed rule: less_induct)
  case less
  show ?case
  proof (cases "i < n")
    case False
    then have "nat n - nat i = 0" "max (nat i) (nat n) = nat i" using less.prems by auto
    then show ?thesis using False by (subst free_loop.simps) simp
  next
    case True
    have il: "nat i < length ls" using True less.prems by simp
    define ls' where "ls' = ls[nat i := None]"
    define freed' where "freed' = (case ls ! nat i of Some s \<Rightarrow> freed @ [s] | None \<Rightarrow> freed)"
    have step: "free_loop ls n i freed = free_loop ls' n (i + 1) freed'"
      using True by (subst free_loop.simps) (simp add: ls'_def freed'_def)
    have IH: "free_loop ls' n (i + 1) freed' =
      (freed' @ map the (filter (\<lambda>x. x \<noteq> None) (take (nat n - nat (i + 1)) (drop (nat (i + 1)) ls'))),
       take (nat (i + 1)) ls' @ replicate (nat n - nat (i + 1)) None @ drop (max (nat (i + 1)) (nat n)) ls')"
      using True less.prems by (intro less.hyps) (auto simp: ls'_def)
    have ni: "nat (i + 1) = Suc (nat i)" using less.prems by simp
    have d1: "drop (Suc (nat i)) ls' = drop (Suc (nat i)) ls" by (simp add: ls'_def)
    have t1: "take (Suc (nat i)) ls' = take (nat i) ls @ [None]"
      using il by (simp add: ls'_def take_Suc_conv_app_nth)
    have sub: "nat n - nat i = Suc (nat n - Suc (nat i))" using True less.prems by simp
    have dr: "drop (nat i) ls = ls ! nat i # drop (Suc (nat i)) ls"
      using il by (simp add: Cons_nth_drop_Suc)
    have mx: "max (Suc (nat i)) (nat n) = nat n" "max (nat i) (nat n) = nat n"
      using True less.prems by auto
    have d2: "drop (nat n) ls' = drop (nat n) ls"
      using True less.prems by (simp add: ls'_def)
    have fr: "freed' @ map the (filter (\<lambda>x. x \<noteq> None) (take (nat n - Suc (nat i)) (drop (Suc (nat i)) ls)))
      = freed @ map the (filter (\<lambda>x. x \<noteq> None) (take (nat n - nat i) (drop (nat i) ls)))"
      unfolding sub dr by (cases "ls ! nat i") (simp_all add: freed'_def)
    have rp: "replicate (nat n - nat i) None = None # replicate (nat n - Suc (nat i)) None"
      unfolding sub by simp
    show ?thesis
      unfolding step IH ni d1 t1 mx d2 fr rp by simp
  qed
qed

lemma free_buffer_eq:
  assumes "line_count b \<le> int (length (lines b))"
  shows "free_buffer b =
    (map the (filter (\<lambda>x. x \<noteq> None) (take (nat (line_count b)) (lines b))),
     b\<lparr>lines := replicate (nat (line_count b)) None @ drop (nat (line_count b)) (lines b),
       line_count := 0, is_active := 0\<rparr>)"
  using free_loop_eq [of 0 "line_count b" "lines b" "[]"] assms
  by (simp add: free_buffer_def)

lemma shift_loop_nth:
  "0 \<le> i \<Longrightarrow> n \<le> int (length bufs) \<Longrightarrow>
   length (shift_loop bufs n i) = length bufs
   \<and> (\<forall>k < length bufs. shift_loop bufs n i ! k =
         (if nat i \<le> k \<and> int k < n - 1 then bufs ! Suc k else bufs ! k))"
proof (induction "nat (n - i)" arbitrary: i bufs rule: less_induct)
  case less
  show ?case
  proof (cases "i < n - 1")
    case False
    then show ?thesis using less.prems by (subst (1 2) shift_loop.simps) auto
  next
    case True
    define bufs' where "bufs' = bufs[nat i := bufs ! nat (i + 1)]"
    have il: "nat i < length bufs" using True less.prems by simp
    have step: "shift_loop bufs n i = shift_loop bufs' n (i + 1)"
      using True by (subst shift_loop.simps) (simp add: bufs'_def)
    have IH: "length (shift_loop bufs' n (i + 1)) = length bufs'
       \<and> (\<forall>k < length bufs'. shift_loop bufs' n (i + 1) ! k =
         (if nat (i + 1) \<le> k \<and> int k < n - 1 then bufs' ! Suc k else bufs' ! k))"
      using True less.prems by (intro less.hyps) (auto simp: bufs'_def)
    have ni: "nat (i + 1) = Suc (nat i)" using less.prems by simp
    have len: "length bufs' = length bufs" by (simp add: bufs'_def)
    have "shift_loop bufs n i ! k =
         (if nat i \<le> k \<and> int k < n - 1 then bufs ! Suc k else bufs ! k)"
      if k: "k < length bufs" for k
    proof -
      have "shift_loop bufs n i ! k =
          (if Suc (nat i) \<le> k \<and> int k < n - 1 then bufs' ! Suc k else bufs' ! k)"
        using IH k unfolding step len ni by simp
      also have "\<dots> = (if nat i \<le> k \<and> int k < n - 1 then bufs ! Suc k else bufs ! k)"
        using il k True less.prems by (auto simp: bufs'_def nth_list_update ni)
      finally show ?thesis .
    qed
    then show ?thesis using IH unfolding step len by simp
  qed
qed

text \<open>
  C5. With \<open>buffer_count \<le> 1\<close>, \<open>close_current_buffer\<close> shows its message, frees nothing
  and leaves the whole state as it was; so does the key \<open>x\<close>.
\<close>

theorem close_rejected:
  "buffer_count state \<le> 1 \<longrightarrow>
     close_current_buffer state = (Some ''Cannot close the last buffer'', [], state)
     \<and> handle_input state running (key CHR ''x'') max_y typed = Some (state, running)"
  by (simp add: close_current_buffer_def handle_input_def key_def)

theorem close_rejected_witness:
  "buffer_count (sample_state [sample_buffer [''only'']] 0) \<le> 1
   \<and> close_current_buffer (sample_state [sample_buffer [''only'']] 0) =
       (Some ''Cannot close the last buffer'', [], sample_state [sample_buffer [''only'']] 0)"
  using close_rejected [of "sample_state [sample_buffer [''only'']] 0" 1 24 "[]"]
  by (simp add: sample_state_def)

text \<open>
  C4. With more than one buffer, a valid current index and a current buffer whose
  \<open>line_count\<close> lines exist, \<open>close_current_buffer\<close> frees exactly the lines of the
  current buffer, leaves the buffers before it in place, moves each later buffer one
  position down, decrements \<open>buffer_count\<close>, and keeps \<open>current_buffer\<close> at its previous
  value unless the closed buffer was the last one, where it becomes the new last index.
\<close>

theorem close_compacts:
  assumes "1 < buffer_count state"
    and "0 \<le> current_buffer state"
    and "current_buffer state < buffer_count state"
    and "buffer_count state \<le> int (length (buffers state))"
    and "line_count (buffers state ! nat (current_buffer state))
           \<le> int (length (lines (buffers state ! nat (current_buffer state))))"
  shows "\<exists>state'.
     close_current_buffer state =
       (None,
        map the (filter (\<lambda>x. x \<noteq> None)
          (take (nat (line_count (buffers state ! nat (current_buffer state))))
                (lines (buffers state ! nat (current_buffer state))))),
        state')
     \<and> buffer_count state' = buffer_count state - 1
     \<and> length (buffers state') = length (buffers state)
     \<and> (\<forall>k. int k < current_buffer state \<longrightarrow> buffers state' ! k = buffers state ! k)
     \<and> (\<forall>k. current_buffer state \<le> int k \<and> int k < buffer_count state - 1 \<longrightarrow>
            buffers state' ! k = buffers state ! Suc k)
     \<and> current_buffer state' =
         (if current_buffer state = buffer_count state - 1 then buffer_count state - 2
          else current_buffer state)
     \<and> 0 \<le> current_buffer state' \<and> current_buffer state' < buffer_count state'"
proof -
  define cur where "cur = current_buffer state"
  define b where "b = buffers state ! nat cur"
  define b' where "b' = snd (free_buffer b)"
  define bufs1 where "bufs1 = (buffers state)[nat cur := b']"
  define bufs2 where "bufs2 = shift_loop bufs1 (buffer_count state) cur"
  define n where "n = buffer_count state - 1"
  define state' where "state' = state\<lparr>buffers := bufs2, buffer_count := n,
      current_buffer := (if cur \<ge> n then n - 1 else cur)\<rparr>"
  have fb: "free_buffer b =
     (map the (filter (\<lambda>x. x \<noteq> None) (take (nat (line_count b)) (lines b))), b')"
    using free_buffer_eq [of b] assms(5) by (simp add: b_def cur_def b'_def)
  have close: "close_current_buffer state =
     (None, map the (filter (\<lambda>x. x \<noteq> None) (take (nat (line_count b)) (lines b))), state')"
    using assms(1) fb
    by (simp add: close_current_buffer_def Let_def cur_def [symmetric] b_def [symmetric]
        state'_def bufs2_def bufs1_def n_def)
  have len1: "length bufs1 = length (buffers state)" by (simp add: bufs1_def)
  have sh: "length bufs2 = length bufs1"
    "\<And>k. k < length bufs1 \<Longrightarrow> bufs2 ! k =
         (if nat cur \<le> k \<and> int k < buffer_count state - 1 then bufs1 ! Suc k else bufs1 ! k)"
    using shift_loop_nth [of cur "buffer_count state" bufs1] assms(2,4) len1
    by (simp_all add: bufs2_def cur_def)
  have low: "buffers state' ! k = buffers state ! k" if "int k < cur" for k
  proof -
    have "k < length bufs1" using that assms len1 by (simp add: cur_def)
    moreover have "k \<noteq> nat cur" "\<not> nat cur \<le> k" using that by auto
    ultimately show ?thesis using sh(2) [of k] by (simp add: state'_def bufs1_def)
  qed
  have high: "buffers state' ! k = buffers state ! Suc k"
    if "cur \<le> int k \<and> int k < buffer_count state - 1" for k
  proof -
    have "k < length bufs1" using that assms len1 by (simp add: cur_def)
    moreover have "nat cur \<le> k" "Suc k \<noteq> nat cur" using that assms(2) by (auto simp: cur_def)
    ultimately show ?thesis using sh(2) [of k] that by (simp add: state'_def bufs1_def)
  qed
  show ?thesis
    using close low high sh(1) len1 assms(1,2,3)
    by (intro exI [of _ state'])
       (auto simp: state'_def n_def cur_def [symmetric] b_def [symmetric])
qed

theorem close_compacts_witness:
  "1 < buffer_count
         (sample_state [sample_buffer [''a''], sample_buffer [''b'', ''bb''], sample_buffer [''c'']] 1)
   \<and> (\<exists>st'. close_current_buffer
          (sample_state [sample_buffer [''a''], sample_buffer [''b'', ''bb''], sample_buffer [''c'']] 1)
            = (None, [''b'', ''bb''], st')
        \<and> buffer_count st' = 2
        \<and> buffers st' ! 0 = sample_buffer [''a'']
        \<and> buffers st' ! 1 = sample_buffer [''c'']
        \<and> current_buffer st' = 1)"
proof -
  let ?st = "sample_state [sample_buffer [''a''], sample_buffer [''b'', ''bb''], sample_buffer [''c'']] 1"
  have h: "1 < buffer_count ?st" "0 \<le> current_buffer ?st" "current_buffer ?st < buffer_count ?st"
    "buffer_count ?st \<le> int (length (buffers ?st))"
    "line_count (buffers ?st ! nat (current_buffer ?st))
       \<le> int (length (lines (buffers ?st ! nat (current_buffer ?st))))"
    by (simp_all add: sample_state_def sample_buffer_def)
  obtain st' where c: "close_current_buffer ?st =
       (None,
        map the (filter (\<lambda>x. x \<noteq> None)
          (take (nat (line_count (buffers ?st ! nat (current_buffer ?st))))
                (lines (buffers ?st ! nat (current_buffer ?st))))),
        st')"
    and n: "buffer_count st' = buffer_count ?st - 1"
    and low: "\<forall>k. int k < current_buffer ?st \<longrightarrow> buffers st' ! k = buffers ?st ! k"
    and high: "\<forall>k. current_buffer ?st \<le> int k \<and> int k < buffer_count ?st - 1 \<longrightarrow>
            buffers st' ! k = buffers ?st ! Suc k"
    and cur: "current_buffer st' =
         (if current_buffer ?st = buffer_count ?st - 1 then buffer_count ?st - 2
          else current_buffer ?st)"
    using close_compacts [OF h] by blast
  have "buffers st' ! 0 = sample_buffer [''a'']"
    using low [rule_format, of 0] by (simp add: sample_state_def)
  moreover have "buffers st' ! 1 = sample_buffer [''c'']"
    using high [rule_format, of 1] by (simp add: sample_state_def)
  moreover have "buffer_count st' = 2" "current_buffer st' = 1"
    using n cur by (simp_all add: sample_state_def)
  moreover have "close_current_buffer ?st = (None, [''b'', ''bb''], st')"
    unfolding c by (simp add: sample_state_def sample_buffer_def)
  ultimately show ?thesis using h(1) by blast
qed

section \<open>Properties of search\<close>

lemma wrap_index_range: "0 < n \<Longrightarrow> 0 \<le> wrap_index n i \<and> wrap_index n i < n"
  by (simp add: wrap_index_def)

lemma wrap_index_step:
  assumes "0 < n" "0 \<le> q" "q < n" "d = 1 \<or> d = - 1"
  shows "wrap_index n (q + d) = (q + d) mod n"
proof (cases "d = 1")
  case True
  show ?thesis
  proof (cases "q + 1 = n")
    case T: True
    then show ?thesis using True assms(1) by (simp add: wrap_index_def)
  next
    case False
    then have "0 \<le> q + 1" "q + 1 < n" using assms by auto
    then show ?thesis using True by (simp add: wrap_index_def)
  qed
next
  case False
  then have d: "d = - 1" using assms(4) by simp
  show ?thesis
  proof (cases "q = 0")
    case True
    have "(- 1) mod n = n - 1" using assms(1) by (simp add: zmod_minus1)
    then show ?thesis using True d assms(1) by (simp add: wrap_index_def)
  next
    case F: False
    then have "0 \<le> q - 1" "q - 1 < n" using assms by auto
    then show ?thesis using d by (simp add: wrap_index_def)
  qed
qed

lemma search_loop_unfold:
  "i < line_count buf \<Longrightarrow>
   search_loop buf tm direction i line =
     (if sublist tm (line_text buf (wrap_index (line_count buf) line))
      then wrap_index (line_count buf) line
      else search_loop buf tm direction (i + 1) (wrap_index (line_count buf) line + direction))"
  if "0 \<le> i"
proof -
  assume i: "i < line_count buf"
  have w: "(if (if line < 0 then line_count buf - 1 else line) \<ge> line_count buf then 0
            else (if line < 0 then line_count buf - 1 else line)) = wrap_index (line_count buf) line"
    using i that by (auto simp: wrap_index_def)
  have "search_loop buf tm direction i line =
     (let line1 = (if line < 0 then line_count buf - 1 else line);
          line2 = (if line1 \<ge> line_count buf then 0 else line1)
      in if strstr (line_text buf line2) tm \<noteq> None then line2
         else search_loop buf tm direction (i + 1) (line2 + direction))"
    using i by (subst search_loop.simps) (simp only: if_True)
  then show ?thesis unfolding Let_def w strstr_sublist .
qed

lemma search_loop_find:
  assumes d: "direction = 1 \<or> direction = - 1"
  shows "0 \<le> i \<Longrightarrow> i < line_count buf \<Longrightarrow> wrap_index (line_count buf) line = q \<Longrightarrow>
    search_loop buf tm direction i line =
      (case find (\<lambda>p. sublist tm (line_text buf p))
              (map (\<lambda>k. (q + direction * int k) mod line_count buf)
                   [0..<nat (line_count buf - i)]) of
         Some p \<Rightarrow> p | None \<Rightarrow> - 1)"
proof (induction "nat (line_count buf - i)" arbitrary: i line q rule: less_induct)
  case less
  define n where "n = line_count buf"
  have n: "0 < n" using less.prems by (simp add: n_def)
  have q: "0 \<le> q" "q < n" using wrap_index_range [OF n, of line] less.prems(3) by (auto simp: n_def)
  obtain m where m: "nat (n - i) = Suc m" using less.prems by (cases "nat (n - i)") (auto simp: n_def)
  have lst: "map (\<lambda>k. (q + direction * int k) mod n) [0..<Suc m] =
      q # map (\<lambda>k. ((q + direction) mod n + direction * int k) mod n) [0..<m]"
  proof -
    have "(q + direction * int (Suc k)) mod n = ((q + direction) mod n + direction * int k) mod n" for k
    proof -
      have "q + direction * int (Suc k) = (q + direction) + direction * int k"
        by (simp add: algebra_simps)
      then show ?thesis by (metis mod_add_left_eq)
    qed
    then show ?thesis using q by (simp add: map_upt_Suc del: upt_Suc)
  qed
  have unf: "search_loop buf tm direction i line =
     (if sublist tm (line_text buf q) then q
      else search_loop buf tm direction (i + 1) (q + direction))"
    using search_loop_unfold [OF less.prems(1,2), of tm direction line] less.prems(3) by simp
  show ?case
  proof (cases "sublist tm (line_text buf q)")
    case True
    then have "search_loop buf tm direction i line = q"
      using unf by simp
    then show ?thesis unfolding n_def [symmetric] m lst using True by simp
  next
    case ns: False
    have step: "search_loop buf tm direction i line = search_loop buf tm direction (i + 1) (q + direction)"
      using unf ns by simp
    show ?thesis
    proof (cases "i + 1 < n")
      case True
      have "search_loop buf tm direction (i + 1) (q + direction) =
        (case find (\<lambda>p. sublist tm (line_text buf p))
              (map (\<lambda>k. ((q + direction) mod n + direction * int k) mod line_count buf)
                   [0..<nat (line_count buf - (i + 1))]) of
         Some p \<Rightarrow> p | None \<Rightarrow> - 1)"
        using True less.prems wrap_index_step [OF n q d]
        by (intro less.hyps) (auto simp: n_def)
      moreover have "nat (line_count buf - (i + 1)) = m" using m by (simp add: n_def)
      ultimately show ?thesis unfolding step n_def [symmetric] m lst using ns by simp
    next
      case False
      then have "m = 0" using m less.prems by (simp add: n_def)
      moreover have "search_loop buf tm direction (i + 1) (q + direction) = - 1"
        using False by (subst search_loop.simps) (simp add: n_def)
      ultimately show ?thesis unfolding step n_def [symmetric] m lst using ns by simp
    qed
  qed
qed

lemma search_loop_empty: "line_count buf \<le> i \<Longrightarrow> search_loop buf tm direction i line = - 1"
  by (subst search_loop.simps) simp

lemma search_loop_hit:
  "0 \<le> i \<Longrightarrow> 0 \<le> search_loop buf tm direction i line \<Longrightarrow>
   search_loop buf tm direction i line < line_count buf
   \<and> sublist tm (line_text buf (search_loop buf tm direction i line))"
proof (induction "nat (line_count buf - i)" arbitrary: i line rule: less_induct)
  case less
  define n where "n = line_count buf"
  show ?case
  proof (cases "i < n")
    case False
    then have "search_loop buf tm direction i line = - 1"
      by (simp add: search_loop_empty n_def)
    then show ?thesis using less.prems by simp
  next
    case True
    define q where "q = wrap_index n line"
    have q: "0 \<le> q" "q < n"
      using wrap_index_range [of n line] True less.prems by (auto simp: q_def)
    have unf: "search_loop buf tm direction i line =
       (if sublist tm (line_text buf q) then q
        else search_loop buf tm direction (i + 1) (q + direction))"
      using search_loop_unfold [of i buf tm direction line] True less.prems
      by (simp add: n_def q_def)
    show ?thesis
    proof (cases "sublist tm (line_text buf q)")
      case T2: True
      then have "search_loop buf tm direction i line = q"
        using unf by simp
      then show ?thesis using q T2 by (simp add: n_def)
    next
      case False
      have step: "search_loop buf tm direction i line = search_loop buf tm direction (i + 1) (q + direction)"
        using unf False by simp
      show ?thesis
        unfolding step using True less.prems
        by (intro less.hyps) (auto simp: n_def step)
    qed
  qed
qed

lemma count_loop_eq:
  "0 \<le> i \<Longrightarrow>
   count_loop buf tm bound i c =
     c + int (length (filter (\<lambda>j. sublist tm (line_text buf (int j))) [nat i..<nat bound]))"
proof (induction "nat (bound - i)" arbitrary: i c rule: less_induct)
  case less
  show ?case
  proof (cases "i < bound")
    case False
    then show ?thesis using less.prems by (subst count_loop.simps) simp
  next
    case True
    define c' where "c' = (if sublist tm (line_text buf i) then c + 1 else c)"
    have "count_loop buf tm bound i c =
        count_loop buf tm bound (i + 1) (if strstr (line_text buf i) tm \<noteq> None then c + 1 else c)"
      using True by (subst count_loop.simps) (simp only: if_True)
    then have "count_loop buf tm bound i c = count_loop buf tm bound (i + 1) c'"
      unfolding strstr_sublist c'_def .
    also have "\<dots> = c'
        + int (length (filter (\<lambda>j. sublist tm (line_text buf (int j))) [nat (i + 1)..<nat bound]))"
      using True less.prems by (intro less.hyps) auto
    finally have *: "count_loop buf tm bound i c = c'
        + int (length (filter (\<lambda>j. sublist tm (line_text buf (int j))) [nat (i + 1)..<nat bound]))" .
    have "[nat i..<nat bound] = nat i # [nat (i + 1)..<nat bound]"
      using True less.prems by (simp add: upt_conv_Cons nat_add_distrib)
    then show ?thesis using * less.prems by (simp add: c'_def)
  qed
qed

lemma rank_less_count:
  assumes "0 \<le> m" "m < n" "sublist tm (line_text buf m)"
  shows "0 \<le> count_loop buf tm m 0 0 \<and> count_loop buf tm m 0 0 < count_loop buf tm n 0 0"
proof -
  let ?P = "\<lambda>j. sublist tm (line_text buf (int j))"
  have "[0..<nat m + (nat n - nat m)] = [0..<nat m] @ [nat m..<nat m + (nat n - nat m)]"
    by (rule upt_add_eq_append) simp
  moreover have "nat m + (nat n - nat m) = nat n" using assms by simp
  moreover have "[nat m..<nat n] = nat m # [Suc (nat m)..<nat n]"
    using assms by (simp add: upt_conv_Cons)
  ultimately have split: "[0..<nat n] = [0..<nat m] @ nat m # [Suc (nat m)..<nat n]"
    by simp
  have "?P (nat m)" using assms by simp
  then have "length (filter ?P [0..<nat m]) < length (filter ?P [0..<nat n])"
    unfolding split by simp
  then show ?thesis by (simp add: count_loop_eq)
qed


lemma search_buffer_hit:
  assumes "0 \<le> search_buffer state tm start_line direction"
  shows "tm \<noteq> []
    \<and> search_buffer state tm start_line direction
         < line_count (buffers state ! nat (current_buffer state))
    \<and> sublist tm (line_text (buffers state ! nat (current_buffer state))
                     (search_buffer state tm start_line direction))"
proof -
  have ne: "tm \<noteq> []" using assms by (auto simp: search_buffer_def)
  then have eq: "search_buffer state tm start_line direction =
      search_loop (buffers state ! nat (current_buffer state)) tm direction 0 start_line"
    by (simp add: search_buffer_def)
  show ?thesis
    using ne assms search_loop_hit [of 0 "buffers state ! nat (current_buffer state)" tm direction start_line]
    unfolding eq by simp
qed

lemma count_loop_scroll:
  "count_loop (buf\<lparr>scroll_offset := v\<rparr>) tm bound 0 0 = count_loop buf tm bound 0 0"
  by (simp add: count_loop_eq line_text_def)

lemma search_buffer_same_buffers:
  "buffers s = buffers t \<Longrightarrow> current_buffer s = current_buffer t \<Longrightarrow>
   search_buffer s tm start_line direction = search_buffer t tm start_line direction"
  by (simp add: search_buffer_def)

text \<open>
  C3, as stated, fails for the empty term: every line contains it (\<open>strstr\<close> finds it
  in \<open>foo\<close>), yet \<open>search_buffer\<close> answers \<open>-1\<close> because of its guard
  \<open>term[0] == 0\<close>.
\<close>

theorem search_buffer_empty_term_counterexample:
  "strstr ''foo'' [] \<noteq> None
   \<and> search_buffer (sample_state [sample_buffer [''foo'']] 0) [] 0 1 = - 1"
  by (simp add: search_buffer_def)

text \<open>
  C3, amended. For a non-empty term and a direction of \<open>1\<close> or \<open>-1\<close>,
  \<open>search_buffer\<close> looks at \<open>line_count\<close> lines: the start line wrapped into range, then
  one line further in the direction each time, around both ends. It returns the first
  of them that contains the term as a substring, byte for byte, and \<open>-1\<close> when none
  does. For the empty term it returns \<open>-1\<close>. On the lines \<open>foo\<close>, \<open>bar\<close>, \<open>baz\<close> and the
  term \<open>ba\<close>: the search from line 0 forwards gives 1, the count of matches is 2 and one
  matching line lies before line 2.
\<close>

theorem search_buffer_first_match:
  "(tm \<noteq> [] \<and> (direction = 1 \<or> direction = - 1) \<longrightarrow>
      search_buffer state tm start_line direction =
        (let buf = buffers state ! nat (current_buffer state); n = line_count buf
         in case find (\<lambda>p. sublist tm (line_text buf p))
                   (map (\<lambda>k. (wrap_index n start_line + direction * int k) mod n) [0..<nat n]) of
              Some p \<Rightarrow> p
            | None \<Rightarrow> - 1))
   \<and> search_buffer state [] start_line direction = - 1
   \<and> search_buffer (sample_state [sample_buffer [''foo'', ''bar'', ''baz'']] 0) ''ba'' 0 1 = 1
   \<and> search_match_count
        (find_all_matches
           ((sample_state [sample_buffer [''foo'', ''bar'', ''baz'']] 0)\<lparr>search_term := ''ba''\<rparr>)) = 2
   \<and> count_loop (sample_buffer [''foo'', ''bar'', ''baz'']) ''ba'' 2 0 0 = 1"
proof (intro conjI impI)
  assume a: "tm \<noteq> [] \<and> (direction = 1 \<or> direction = - 1)"
  define buf where "buf = buffers state ! nat (current_buffer state)"
  have eq: "search_buffer state tm start_line direction = search_loop buf tm direction 0 start_line"
    using a by (simp add: search_buffer_def buf_def)
  show "search_buffer state tm start_line direction =
        (let buf = buffers state ! nat (current_buffer state); n = line_count buf
         in case find (\<lambda>p. sublist tm (line_text buf p))
                   (map (\<lambda>k. (wrap_index n start_line + direction * int k) mod n) [0..<nat n]) of
              Some p \<Rightarrow> p
            | None \<Rightarrow> - 1)"
  proof (cases "0 < line_count buf")
    case True
    then show ?thesis
      using search_loop_find [of direction 0 buf start_line "wrap_index (line_count buf) start_line" tm] a
      unfolding eq by (simp add: buf_def Let_def)
  next
    case False
    then show ?thesis
      unfolding eq by (simp add: search_loop_empty buf_def [symmetric] Let_def)
  qed
next
  show "search_buffer state [] start_line direction = - 1"
    by (simp add: search_buffer_def)
next
  show "search_buffer (sample_state [sample_buffer [''foo'', ''bar'', ''baz'']] 0) ''ba'' 0 1 = 1"
    by code_simp
next
  show "search_match_count
        (find_all_matches
           ((sample_state [sample_buffer [''foo'', ''bar'', ''baz'']] 0)\<lparr>search_term := ''ba''\<rparr>)) = 2"
    by code_simp
next
  show "count_loop (sample_buffer [''foo'', ''bar'', ''baz'']) ''ba'' 2 0 0 = 1"
    by code_simp
qed

theorem search_buffer_first_match_witness:
  "''z'' \<noteq> [] \<and> ((- 1 :: int) = 1 \<or> (- 1 :: int) = - 1)
   \<and> search_buffer (sample_state [sample_buffer [''foo'', ''bar'', ''baz'']] 0) ''z'' (- 1) (- 1) = 2"
proof -
  have "sublist ''z'' ''baz''" "\<not> sublist ''z'' ''foo''" "\<not> sublist ''z'' ''bar''"
    unfolding strstr_sublist [symmetric] by simp_all
  then show ?thesis
    using search_buffer_first_match
      [of "''z''" "- 1" "sample_state [sample_buffer [''foo'', ''bar'', ''baz'']] 0" "- 1"]
    by (simp add: sample_state_def sample_buffer_def line_text_def wrap_index_def
        upt_conv_Cons zmod_minus1)
qed

lemma navigation_rank:
  assumes cur: "nat (current_buffer state) < length (buffers state)"
    and hit: "0 \<le> match" "match < line_count buf" "sublist tm (line_text buf match)"
    and buf: "buf = buffers state ! nat (current_buffer state)"
    and tm: "tm \<noteq> []" "search_term state = tm"
    and s': "s' = state\<lparr>buffers := (buffers state)[nat (current_buffer state) := buf\<lparr>scroll_offset := match\<rparr>],
                     current_match := count_loop (buf\<lparr>scroll_offset := match\<rparr>) tm match 0 0\<rparr>"
  shows "current_match s' =
           int (length (filter (\<lambda>j. sublist tm (line_text buf (int j))) [0..<nat match]))
       \<and> 0 \<le> current_match s'
       \<and> current_match s' < search_match_count (find_all_matches s')
       \<and> search_match_count (find_all_matches s') = count_loop buf tm (line_count buf) 0 0"
proof -
  have cm: "current_match s' = count_loop buf tm match 0 0"
    by (simp add: s' count_loop_scroll)
  have "buffers s' ! nat (current_buffer s') = buf\<lparr>scroll_offset := match\<rparr>"
    using cur by (simp add: s')
  then have N: "search_match_count (find_all_matches s') = count_loop buf tm (line_count buf) 0 0"
    using tm by (simp add: find_all_matches_def s' Let_def count_loop_scroll)
  show ?thesis
    using rank_less_count [OF hit] cm N count_loop_eq [of 0 buf tm match 0] by simp
qed

lemma current_match_rank:
  assumes "nat (current_buffer state) < length (buffers state)"
  shows "(trim_input typed \<noteq> []
          \<and> 0 \<le> search_buffer state (take 255 (trim_input typed)) 0 1 \<longrightarrow>
            current_match (prompt_search state typed) =
              int (length (filter
                (\<lambda>j. sublist (take 255 (trim_input typed))
                       (line_text (buffers state ! nat (current_buffer state)) (int j)))
                [0..<nat (search_buffer state (take 255 (trim_input typed)) 0 1)]))
            \<and> 0 \<le> current_match (prompt_search state typed)
            \<and> current_match (prompt_search state typed)
                 < search_match_count (prompt_search state typed)
            \<and> search_match_count (find_all_matches (prompt_search state typed))
                 = search_match_count (prompt_search state typed))
     \<and> (0 \<le> search_buffer state (search_term state)
                 (scroll_offset (buffers state ! nat (current_buffer state)) + 1) 1 \<longrightarrow>
            current_match (next_match state) =
              int (length (filter
                (\<lambda>j. sublist (search_term state)
                       (line_text (buffers state ! nat (current_buffer state)) (int j)))
                [0..<nat (search_buffer state (search_term state)
                   (scroll_offset (buffers state ! nat (current_buffer state)) + 1) 1)]))
            \<and> 0 \<le> current_match (next_match state)
            \<and> current_match (next_match state)
                 < search_match_count (find_all_matches (next_match state)))
     \<and> (0 \<le> search_buffer state (search_term state)
                 (scroll_offset (buffers state ! nat (current_buffer state)) - 1) (- 1) \<longrightarrow>
            current_match (prev_match state) =
              int (length (filter
                (\<lambda>j. sublist (search_term state)
                       (line_text (buffers state ! nat (current_buffer state)) (int j)))
                [0..<nat (search_buffer state (search_term state)
                   (scroll_offset (buffers state ! nat (current_buffer state)) - 1) (- 1))]))
            \<and> 0 \<le> current_match (prev_match state)
            \<and> current_match (prev_match state)
                 < search_match_count (find_all_matches (prev_match state)))"
proof (intro conjI impI)
  define buf where "buf = buffers state ! nat (current_buffer state)"
  {
    assume a: "trim_input typed \<noteq> [] \<and> 0 \<le> search_buffer state (take 255 (trim_input typed)) 0 1"
    define tm where "tm = take 255 (trim_input typed)"
    define st where "st = find_all_matches (state\<lparr>search_term := tm\<rparr>)"
    define match where "match = search_buffer state tm 0 1"
    have tm: "tm \<noteq> []" using a by (simp add: tm_def)
    have st: "buffers st = buffers state" "current_buffer st = current_buffer state"
      "search_term st = tm" "search_match_count st = count_loop buf tm (line_count buf) 0 0"
      using tm by (simp_all add: st_def find_all_matches_def Let_def buf_def)
    have m: "search_buffer st tm 0 1 = match"
      unfolding match_def using st by (intro search_buffer_same_buffers) simp_all
    have hit: "0 \<le> match" "match < line_count buf" "sublist tm (line_text buf match)"
      using a search_buffer_hit [of state tm 0 1] by (simp_all add: match_def tm_def buf_def)
    define s' where "s' = st\<lparr>buffers := (buffers st)[nat (current_buffer st) := buf\<lparr>scroll_offset := match\<rparr>],
                     current_match := count_loop (buf\<lparr>scroll_offset := match\<rparr>) tm match 0 0\<rparr>"
    have ps: "prompt_search state typed = s'"
      using a hit(1) m st
      by (simp add: prompt_search_def Let_def tm_def [symmetric] st_def [symmetric] s'_def buf_def)
    have r: "current_match s' =
           int (length (filter (\<lambda>j. sublist tm (line_text buf (int j))) [0..<nat match]))
       \<and> 0 \<le> current_match s'
       \<and> current_match s' < search_match_count (find_all_matches s')
       \<and> search_match_count (find_all_matches s') = count_loop buf tm (line_count buf) 0 0"
      using assms st tm hit by (intro navigation_rank [where state = st]) (simp_all add: buf_def s'_def)
    have smc: "search_match_count s' = count_loop buf tm (line_count buf) 0 0"
      using st by (simp add: s'_def)
    show "current_match (prompt_search state typed) =
              int (length (filter
                (\<lambda>j. sublist (take 255 (trim_input typed))
                       (line_text (buffers state ! nat (current_buffer state)) (int j)))
                [0..<nat (search_buffer state (take 255 (trim_input typed)) 0 1)]))"
      using r unfolding ps by (simp add: tm_def buf_def match_def)
    show "0 \<le> current_match (prompt_search state typed)"
      "current_match (prompt_search state typed) < search_match_count (prompt_search state typed)"
      "search_match_count (find_all_matches (prompt_search state typed))
                 = search_match_count (prompt_search state typed)"
      using r smc unfolding ps by simp_all
  }
  {
    assume a: "0 \<le> search_buffer state (search_term state) (scroll_offset (buffers state ! nat (current_buffer state)) + 1) 1"
    define tm where "tm = search_term state"
    define match where "match = search_buffer state tm (scroll_offset buf + 1) 1"
    have hit: "tm \<noteq> []" "0 \<le> match" "match < line_count buf" "sublist tm (line_text buf match)"
      using a search_buffer_hit [of state tm "scroll_offset buf + 1" 1]
      by (simp_all add: match_def tm_def buf_def)
    define s' where "s' = state\<lparr>buffers := (buffers state)[nat (current_buffer state) := buf\<lparr>scroll_offset := match\<rparr>],
                     current_match := count_loop (buf\<lparr>scroll_offset := match\<rparr>) tm match 0 0\<rparr>"
    have nm: "next_match state = s'"
      using hit(1,2)
      by (simp add: next_match_def Let_def tm_def [symmetric] buf_def [symmetric]
          match_def [symmetric] s'_def)
    have r: "current_match s' =
           int (length (filter (\<lambda>j. sublist tm (line_text buf (int j))) [0..<nat match]))
       \<and> 0 \<le> current_match s'
       \<and> current_match s' < search_match_count (find_all_matches s')
       \<and> search_match_count (find_all_matches s') = count_loop buf tm (line_count buf) 0 0"
      using assms hit by (intro navigation_rank [where state = state]) (simp_all add: buf_def s'_def tm_def)
    show "current_match (next_match state) =
              int (length (filter
                (\<lambda>j. sublist (search_term state)
                       (line_text (buffers state ! nat (current_buffer state)) (int j)))
                [0..<nat (search_buffer state (search_term state)
                   (scroll_offset (buffers state ! nat (current_buffer state)) + 1) 1)]))"
      using r unfolding nm by (simp add: tm_def buf_def match_def)
    show "0 \<le> current_match (next_match state)"
      "current_match (next_match state) < search_match_count (find_all_matches (next_match state))"
      using r unfolding nm by simp_all
  }
  {
    assume a: "0 \<le> search_buffer state (search_term state) (scroll_offset (buffers state ! nat (current_buffer state)) - 1) (- 1)"
    define tm where "tm = search_term state"
    define match where "match = search_buffer state tm (scroll_offset buf - 1) (- 1)"
    have hit: "tm \<noteq> []" "0 \<le> match" "match < line_count buf" "sublist tm (line_text buf match)"
      using a search_buffer_hit [of state tm "scroll_offset buf - 1" "- 1"]
      by (simp_all add: match_def tm_def buf_def)
    define s' where "s' = state\<lparr>buffers := (buffers state)[nat (current_buffer state) := buf\<lparr>scroll_offset := match\<rparr>],
                     current_match := count_loop (buf\<lparr>scroll_offset := match\<rparr>) tm match 0 0\<rparr>"
    have nm: "prev_match state = s'"
      using hit(1,2)
      by (simp add: prev_match_def Let_def tm_def [symmetric] buf_def [symmetric]
          match_def [symmetric] s'_def)
    have r: "current_match s' =
           int (length (filter (\<lambda>j. sublist tm (line_text buf (int j))) [0..<nat match]))
       \<and> 0 \<le> current_match s'
       \<and> current_match s' < search_match_count (find_all_matches s')
       \<and> search_match_count (find_all_matches s') = count_loop buf tm (line_count buf) 0 0"
      using assms hit by (intro navigation_rank [where state = state]) (simp_all add: buf_def s'_def tm_def)
    show "current_match (prev_match state) =
              int (length (filter
                (\<lambda>j. sublist (search_term state)
                       (line_text (buffers state ! nat (current_buffer state)) (int j)))
                [0..<nat (search_buffer state (search_term state)
                   (scroll_offset (buffers state ! nat (current_buffer state)) - 1) (- 1))]))"
      using r unfolding nm by (simp add: tm_def buf_def match_def)
    show "0 \<le> current_match (prev_match state)"
      "current_match (prev_match state) < search_match_count (find_all_matches (prev_match state))"
      using r unfolding nm by simp_all
  }
qed

lemma next_match_keeps_count:
  "search_match_count (next_match state) = search_match_count state"
  by (simp add: next_match_def Let_def)

lemma prev_match_keeps_count:
  "search_match_count (prev_match state) = search_match_count state"
  by (simp add: prev_match_def Let_def)

lemma find_all_matches_scroll:
  assumes "nat (current_buffer state) < length (buffers state)"
  shows "search_match_count
           (find_all_matches
              (state\<lparr>buffers := (buffers state)[nat (current_buffer state) :=
                                  (buffers state ! nat (current_buffer state))\<lparr>scroll_offset := m\<rparr>],
                     current_match := c\<rparr>))
         = search_match_count (find_all_matches state)"
  using assms by (simp add: find_all_matches_def Let_def count_loop_scroll)

lemma next_match_same_total:
  assumes "nat (current_buffer state) < length (buffers state)"
  shows "search_match_count (find_all_matches (next_match state))
         = search_match_count (find_all_matches state)"
proof (cases "search_term state \<noteq> [] \<and> 0 \<le> search_buffer state (search_term state)
                 (scroll_offset (buffers state ! nat (current_buffer state)) + 1) 1")
  case True
  then show ?thesis
    using find_all_matches_scroll [OF assms] by (simp add: next_match_def Let_def)
next
  case False
  then have "next_match state = state" by (auto simp: next_match_def Let_def)
  then show ?thesis by simp
qed

lemma prev_match_same_total:
  assumes "nat (current_buffer state) < length (buffers state)"
  shows "search_match_count (find_all_matches (prev_match state))
         = search_match_count (find_all_matches state)"
proof (cases "search_term state \<noteq> [] \<and> 0 \<le> search_buffer state (search_term state)
                 (scroll_offset (buffers state ! nat (current_buffer state)) - 1) (- 1)")
  case True
  then show ?thesis
    using find_all_matches_scroll [OF assms] by (simp add: prev_match_def Let_def)
next
  case False
  then have "prev_match state = state" by (auto simp: prev_match_def Let_def)
  then show ?thesis by simp
qed

text \<open>
  C10, as stated, fails in its last part: the total shown on the status bar is the
  stored \<open>search_match_count\<close>, which only \<open>prompt_search\<close> writes. Search for \<open>ba\<close> in a
  buffer with one matching line, switch with Tab to a buffer with two, press \<open>n\<close>: the
  search finds line 1 there, \<open>current_match\<close> becomes \<open>1\<close>, the stored total is still \<open>1\<close>
  and the status bar shows match 2 of 1.
\<close>

theorem stale_match_count_counterexample:
  "handle_input (sample_state [sample_buffer [''ba''], sample_buffer [''ba'', ''ba'']] 0)
      1 (key CHR ''/'') 24 ''ba''
     = Some ((sample_state [sample_buffer [''ba''], sample_buffer [''ba'', ''ba'']] 0)
               \<lparr>search_term := ''ba'', search_match_count := 1\<rparr>, 1)
   \<and> handle_input
        ((sample_state [sample_buffer [''ba''], sample_buffer [''ba'', ''ba'']] 0)
           \<lparr>search_term := ''ba'', search_match_count := 1\<rparr>)
        1 9 24 []
     = Some ((sample_state [sample_buffer [''ba''], sample_buffer [''ba'', ''ba'']] 1)
               \<lparr>search_term := ''ba'', search_match_count := 1\<rparr>, 1)
   \<and> search_buffer
        ((sample_state [sample_buffer [''ba''], sample_buffer [''ba'', ''ba'']] 1)
           \<lparr>search_term := ''ba'', search_match_count := 1\<rparr>)
        ''ba'' 1 1 = 1
   \<and> handle_input
        ((sample_state [sample_buffer [''ba''], sample_buffer [''ba'', ''ba'']] 1)
           \<lparr>search_term := ''ba'', search_match_count := 1\<rparr>)
        1 (key CHR ''n'') 24 []
     = Some ((sample_state
                [sample_buffer [''ba''], (sample_buffer [''ba'', ''ba''])\<lparr>scroll_offset := 1\<rparr>] 1)
               \<lparr>search_term := ''ba'', search_match_count := 1, current_match := 1\<rparr>, 1)
   \<and> \<not> current_match
          ((sample_state
              [sample_buffer [''ba''], (sample_buffer [''ba'', ''ba''])\<lparr>scroll_offset := 1\<rparr>] 1)
             \<lparr>search_term := ''ba'', search_match_count := 1, current_match := 1\<rparr>) + 1
        \<le> search_match_count
          ((sample_state
              [sample_buffer [''ba''], (sample_buffer [''ba'', ''ba''])\<lparr>scroll_offset := 1\<rparr>] 1)
             \<lparr>search_term := ''ba'', search_match_count := 1, current_match := 1\<rparr>)"
  by code_simp

text \<open>
  C10, amended. When \<open>prompt_search\<close>, \<open>next_match\<close> or \<open>prev_match\<close> finds a line, the
  \<open>current_match\<close> it stores is the number of matching lines before that line, it is not
  negative, and it is below the number of matching lines of the same buffer for the
  same term, the value \<open>find_all_matches\<close> computes. After \<open>prompt_search\<close> the stored
  total is that number, so the ordinal shown does not exceed the total shown.
  \<open>next_match\<close> and \<open>prev_match\<close> leave the stored total as it was: after them the
  ordinal shown does not exceed the total shown when the stored total was that number
  before.
\<close>

theorem current_match_below_count:
  assumes "nat (current_buffer state) < length (buffers state)"
  shows "(trim_input typed \<noteq> []
          \<and> 0 \<le> search_buffer state (take 255 (trim_input typed)) 0 1 \<longrightarrow>
            current_match (prompt_search state typed) =
              int (length (filter
                (\<lambda>j. sublist (take 255 (trim_input typed))
                       (line_text (buffers state ! nat (current_buffer state)) (int j)))
                [0..<nat (search_buffer state (take 255 (trim_input typed)) 0 1)]))
            \<and> 0 \<le> current_match (prompt_search state typed)
            \<and> current_match (prompt_search state typed)
                 < search_match_count (prompt_search state typed)
            \<and> search_match_count (find_all_matches (prompt_search state typed))
                 = search_match_count (prompt_search state typed)
            \<and> current_match (prompt_search state typed) + 1
                 \<le> search_match_count (prompt_search state typed))
     \<and> (0 \<le> search_buffer state (search_term state)
                 (scroll_offset (buffers state ! nat (current_buffer state)) + 1) 1 \<longrightarrow>
            current_match (next_match state) =
              int (length (filter
                (\<lambda>j. sublist (search_term state)
                       (line_text (buffers state ! nat (current_buffer state)) (int j)))
                [0..<nat (search_buffer state (search_term state)
                   (scroll_offset (buffers state ! nat (current_buffer state)) + 1) 1)]))
            \<and> 0 \<le> current_match (next_match state)
            \<and> current_match (next_match state)
                 < search_match_count (find_all_matches (next_match state))
            \<and> search_match_count (find_all_matches (next_match state))
                 = search_match_count (find_all_matches state)
            \<and> search_match_count (next_match state) = search_match_count state
            \<and> (search_match_count state = search_match_count (find_all_matches state) \<longrightarrow>
                 current_match (next_match state) + 1 \<le> search_match_count (next_match state)))
     \<and> (0 \<le> search_buffer state (search_term state)
                 (scroll_offset (buffers state ! nat (current_buffer state)) - 1) (- 1) \<longrightarrow>
            current_match (prev_match state) =
              int (length (filter
                (\<lambda>j. sublist (search_term state)
                       (line_text (buffers state ! nat (current_buffer state)) (int j)))
                [0..<nat (search_buffer state (search_term state)
                   (scroll_offset (buffers state ! nat (current_buffer state)) - 1) (- 1))]))
            \<and> 0 \<le> current_match (prev_match state)
            \<and> current_match (prev_match state)
                 < search_match_count (find_all_matches (prev_match state))
            \<and> search_match_count (find_all_matches (prev_match state))
                 = search_match_count (find_all_matches state)
            \<and> search_match_count (prev_match state) = search_match_count state
            \<and> (search_match_count state = search_match_count (find_all_matches state) \<longrightarrow>
                 current_match (prev_match state) + 1 \<le> search_match_count (prev_match state)))"
proof -
  note r = current_match_rank [OF assms, of typed]
  note n = next_match_same_total [OF assms] next_match_keeps_count [of state]
  note p = prev_match_same_total [OF assms] prev_match_keeps_count [of state]
  have one: "trim_input typed \<noteq> []
          \<and> 0 \<le> search_buffer state (take 255 (trim_input typed)) 0 1 \<longrightarrow>
            current_match (prompt_search state typed) =
              int (length (filter
                (\<lambda>j. sublist (take 255 (trim_input typed))
                       (line_text (buffers state ! nat (current_buffer state)) (int j)))
                [0..<nat (search_buffer state (take 255 (trim_input typed)) 0 1)]))
            \<and> 0 \<le> current_match (prompt_search state typed)
            \<and> current_match (prompt_search state typed)
                 < search_match_count (prompt_search state typed)
            \<and> search_match_count (find_all_matches (prompt_search state typed))
                 = search_match_count (prompt_search state typed)
            \<and> current_match (prompt_search state typed) + 1
                 \<le> search_match_count (prompt_search state typed)"
    using r by linarith
  have two: "0 \<le> search_buffer state (search_term state)
                 (scroll_offset (buffers state ! nat (current_buffer state)) + 1) 1 \<longrightarrow>
            current_match (next_match state) =
              int (length (filter
                (\<lambda>j. sublist (search_term state)
                       (line_text (buffers state ! nat (current_buffer state)) (int j)))
                [0..<nat (search_buffer state (search_term state)
                   (scroll_offset (buffers state ! nat (current_buffer state)) + 1) 1)]))
            \<and> 0 \<le> current_match (next_match state)
            \<and> current_match (next_match state)
                 < search_match_count (find_all_matches (next_match state))
            \<and> search_match_count (find_all_matches (next_match state))
                 = search_match_count (find_all_matches state)
            \<and> search_match_count (next_match state) = search_match_count state
            \<and> (search_match_count state = search_match_count (find_all_matches state) \<longrightarrow>
                 current_match (next_match state) + 1 \<le> search_match_count (next_match state))"
    using r n by linarith
  have three: "0 \<le> search_buffer state (search_term state)
                 (scroll_offset (buffers state ! nat (current_buffer state)) - 1) (- 1) \<longrightarrow>
            current_match (prev_match state) =
              int (length (filter
                (\<lambda>j. sublist (search_term state)
                       (line_text (buffers state ! nat (current_buffer state)) (int j)))
                [0..<nat (search_buffer state (search_term state)
                   (scroll_offset (buffers state ! nat (current_buffer state)) - 1) (- 1))]))
            \<and> 0 \<le> current_match (prev_match state)
            \<and> current_match (prev_match state)
                 < search_match_count (find_all_matches (prev_match state))
            \<and> search_match_count (find_all_matches (prev_match state))
                 = search_match_count (find_all_matches state)
            \<and> search_match_count (prev_match state) = search_match_count state
            \<and> (search_match_count state = search_match_count (find_all_matches state) \<longrightarrow>
                 current_match (prev_match state) + 1 \<le> search_match_count (prev_match state))"
    using r p by linarith
  show ?thesis using one two three by blast
qed

theorem current_match_below_count_witness:
  "nat (current_buffer
          ((sample_state [sample_buffer [''foo'', ''bar'', ''baz'']] 0)
             \<lparr>search_term := ''ba'', search_match_count := 2\<rparr>))
     < length (buffers
          ((sample_state [sample_buffer [''foo'', ''bar'', ''baz'']] 0)
             \<lparr>search_term := ''ba'', search_match_count := 2\<rparr>))
   \<and> trim_input ''ba '' \<noteq> []
   \<and> search_buffer
        ((sample_state [sample_buffer [''foo'', ''bar'', ''baz'']] 0)
           \<lparr>search_term := ''ba'', search_match_count := 2\<rparr>) ''ba'' 0 1 = 1
   \<and> search_buffer
        ((sample_state [sample_buffer [''foo'', ''bar'', ''baz'']] 0)
           \<lparr>search_term := ''ba'', search_match_count := 2\<rparr>) ''ba'' 1 1 = 1
   \<and> search_buffer
        ((sample_state [sample_buffer [''foo'', ''bar'', ''baz'']] 0)
           \<lparr>search_term := ''ba'', search_match_count := 2\<rparr>) ''ba'' (- 1) (- 1) = 2
   \<and> search_match_count
        (find_all_matches
          ((sample_state [sample_buffer [''foo'', ''bar'', ''baz'']] 0)
             \<lparr>search_term := ''ba'', search_match_count := 2\<rparr>)) = 2
   \<and> current_match (prompt_search
        ((sample_state [sample_buffer [''foo'', ''bar'', ''baz'']] 0)
           \<lparr>search_term := ''ba'', search_match_count := 2\<rparr>) ''ba '') + 1
       \<le> search_match_count (prompt_search
        ((sample_state [sample_buffer [''foo'', ''bar'', ''baz'']] 0)
           \<lparr>search_term := ''ba'', search_match_count := 2\<rparr>) ''ba '')
   \<and> current_match (next_match
        ((sample_state [sample_buffer [''foo'', ''bar'', ''baz'']] 0)
           \<lparr>search_term := ''ba'', search_match_count := 2\<rparr>)) + 1
       \<le> search_match_count (next_match
        ((sample_state [sample_buffer [''foo'', ''bar'', ''baz'']] 0)
           \<lparr>search_term := ''ba'', search_match_count := 2\<rparr>))
   \<and> current_match (prev_match
        ((sample_state [sample_buffer [''foo'', ''bar'', ''baz'']] 0)
           \<lparr>search_term := ''ba'', search_match_count := 2\<rparr>)) + 1
       \<le> search_match_count (prev_match
        ((sample_state [sample_buffer [''foo'', ''bar'', ''baz'']] 0)
           \<lparr>search_term := ''ba'', search_match_count := 2\<rparr>))"
proof -
  let ?st = "(sample_state [sample_buffer [''foo'', ''bar'', ''baz'']] 0)
               \<lparr>search_term := ''ba'', search_match_count := 2\<rparr>"
  have h: "nat (current_buffer ?st) < length (buffers ?st)"
    by (simp add: sample_state_def)
  have t: "trim_input ''ba '' = ''ba''"
    by code_simp
  have s0: "search_buffer ?st ''ba'' 0 1 = 1"
    by code_simp
  have s1: "search_buffer ?st ''ba'' 1 1 = 1"
    by code_simp
  have s2: "search_buffer ?st ''ba'' (- 1) (- 1) = 2"
    by code_simp
  have fresh: "search_match_count (find_all_matches ?st) = 2"
    by code_simp
  have so: "scroll_offset (buffers ?st ! nat (current_buffer ?st)) = 0" "search_term ?st = ''ba''"
    "search_match_count ?st = 2"
    by (simp_all add: sample_state_def sample_buffer_def)
  show ?thesis
    using current_match_below_count [OF h, of "''ba ''"] h
    unfolding so t fresh by (simp add: s0 s1 s2 fresh)
qed

section \<open>The scroll invariant\<close>

lemma scroll_update_invariant:
  assumes "all_scroll_invariant s"
    and "0 \<le> current_buffer s" "nat (current_buffer s) < length (buffers s)"
    and "0 \<le> v" "v < max 1 (line_count (buffers s ! nat (current_buffer s)))"
    and "buffers s' = (buffers s)[nat (current_buffer s) :=
                         (buffers s ! nat (current_buffer s))\<lparr>scroll_offset := v\<rparr>]"
    and "buffer_count s' = buffer_count s"
  shows "all_scroll_invariant s'"
  unfolding all_scroll_invariant_def
proof (intro allI impI)
  fix k assume k: "int k < buffer_count s'"
  show "scroll_invariant (buffers s' ! k)"
  proof (cases "k = nat (current_buffer s)")
    case True
    then show ?thesis using assms by (simp add: scroll_invariant_def)
  next
    case False
    then have "buffers s' ! k = buffers s ! k" using assms(6) by simp
    then show ?thesis using assms(1,7) k by (simp add: all_scroll_invariant_def)
  qed
qed

lemma set_scroll_invariant:
  assumes "all_scroll_invariant s"
    and "0 \<le> current_buffer s" "nat (current_buffer s) < length (buffers s)"
    and "0 \<le> v" "v < max 1 (line_count (buffers s ! nat (current_buffer s)))"
  shows "all_scroll_invariant (set_scroll s v) \<and> buffer_count (set_scroll s v) = buffer_count s"
  using scroll_update_invariant [OF assms, of "set_scroll s v"]
  by (simp add: set_scroll_def Let_def)

lemma next_match_invariant:
  assumes "all_scroll_invariant s"
    and "0 \<le> current_buffer s" "nat (current_buffer s) < length (buffers s)"
  shows "all_scroll_invariant (next_match s) \<and> buffer_count (next_match s) = buffer_count s"
proof -
  define buf where "buf = buffers s ! nat (current_buffer s)"
  define match where "match = search_buffer s (search_term s) (scroll_offset buf + 1) 1"
  show ?thesis
  proof (cases "search_term s \<noteq> [] \<and> 0 \<le> match")
    case False
    then have "next_match s = s"
      by (auto simp: next_match_def Let_def buf_def match_def)
    then show ?thesis using assms by simp
  next
    case True
    then have hit: "match < line_count buf"
      using search_buffer_hit [of s "search_term s" "scroll_offset buf + 1" 1]
      by (simp add: match_def buf_def)
    have nm: "next_match s = s\<lparr>buffers := (buffers s)[nat (current_buffer s) := buf\<lparr>scroll_offset := match\<rparr>],
         current_match := count_loop (buf\<lparr>scroll_offset := match\<rparr>) (search_term s) match 0 0\<rparr>"
      using True by (simp add: next_match_def Let_def buf_def [symmetric] match_def [symmetric])
    show ?thesis
      using scroll_update_invariant [OF assms, of match "next_match s"] True hit
      by (simp add: nm buf_def)
  qed
qed

lemma prev_match_invariant:
  assumes "all_scroll_invariant s"
    and "0 \<le> current_buffer s" "nat (current_buffer s) < length (buffers s)"
  shows "all_scroll_invariant (prev_match s) \<and> buffer_count (prev_match s) = buffer_count s"
proof -
  define buf where "buf = buffers s ! nat (current_buffer s)"
  define match where "match = search_buffer s (search_term s) (scroll_offset buf - 1) (- 1)"
  show ?thesis
  proof (cases "search_term s \<noteq> [] \<and> 0 \<le> match")
    case False
    then have "prev_match s = s"
      by (auto simp: prev_match_def Let_def buf_def match_def)
    then show ?thesis using assms by simp
  next
    case True
    then have hit: "match < line_count buf"
      using search_buffer_hit [of s "search_term s" "scroll_offset buf - 1" "- 1"]
      by (simp add: match_def buf_def)
    have nm: "prev_match s = s\<lparr>buffers := (buffers s)[nat (current_buffer s) := buf\<lparr>scroll_offset := match\<rparr>],
         current_match := count_loop (buf\<lparr>scroll_offset := match\<rparr>) (search_term s) match 0 0\<rparr>"
      using True by (simp add: prev_match_def Let_def buf_def [symmetric] match_def [symmetric])
    show ?thesis
      using scroll_update_invariant [OF assms, of match "prev_match s"] True hit
      by (simp add: nm buf_def)
  qed
qed

lemma prompt_search_invariant:
  assumes "all_scroll_invariant s"
    and "0 \<le> current_buffer s" "nat (current_buffer s) < length (buffers s)"
  shows "all_scroll_invariant (prompt_search s typed)
     \<and> buffer_count (prompt_search s typed) = buffer_count s"
proof (cases "trim_input typed = []")
  case True
  then show ?thesis using assms by (simp add: prompt_search_def)
next
  case False
  define tm where "tm = take 255 (trim_input typed)"
  define st where "st = find_all_matches (s\<lparr>search_term := tm\<rparr>)"
  define buf where "buf = buffers s ! nat (current_buffer s)"
  define match where "match = search_buffer st tm 0 1"
  have st: "buffers st = buffers s" "current_buffer st = current_buffer s"
    "search_term st = tm" "buffer_count st = buffer_count s"
    using False by (simp_all add: st_def find_all_matches_def Let_def tm_def)
  have inv: "all_scroll_invariant st"
    using assms(1) st by (simp add: all_scroll_invariant_def)
  show ?thesis
  proof (cases "0 \<le> match")
    case F2: False
    then have "prompt_search s typed = st"
      using False st
      by (simp add: prompt_search_def Let_def tm_def [symmetric] st_def [symmetric] match_def)
    then show ?thesis using inv st by simp
  next
    case True
    then have hit: "match < line_count buf"
      using search_buffer_hit [of st tm 0 1] st by (simp add: match_def buf_def)
    have ps: "prompt_search s typed = st\<lparr>buffers := (buffers st)[nat (current_buffer st) := buf\<lparr>scroll_offset := match\<rparr>],
         current_match := count_loop (buf\<lparr>scroll_offset := match\<rparr>) tm match 0 0\<rparr>"
      using True False st
      by (simp add: prompt_search_def Let_def tm_def [symmetric] st_def [symmetric]
          match_def [symmetric] buf_def)
    have "all_scroll_invariant (prompt_search s typed)"
    proof (rule scroll_update_invariant [where s = st and v = match])
      show "all_scroll_invariant st" by (rule inv)
      show "0 \<le> current_buffer st" using assms(2) st(2) by simp
      show "nat (current_buffer st) < length (buffers st)" using assms(3) st(1,2) by simp
      show "0 \<le> match" by (rule True)
      show "match < max 1 (line_count (buffers st ! nat (current_buffer st)))"
        using hit st(1,2) by (simp add: buf_def)
      show "buffers (prompt_search s typed) = (buffers st)[nat (current_buffer st) :=
              (buffers st ! nat (current_buffer st))\<lparr>scroll_offset := match\<rparr>]"
        unfolding ps using st(1,2) by (simp add: buf_def)
      show "buffer_count (prompt_search s typed) = buffer_count st"
        unfolding ps by simp
    qed
    moreover have "buffer_count (prompt_search s typed) = buffer_count s"
      unfolding ps using st(4) by simp
    ultimately show ?thesis by simp
  qed
qed

lemma load_loop_fields:
  "scroll_offset (load_loop reads b) = scroll_offset b
   \<and> line_count b \<le> line_count (load_loop reads b)"
proof (induction reads arbitrary: b)
  case Nil
  then show ?case by simp
next
  case (Cons raw rest)
  show ?case
  proof (cases "line_count b < MAX_LINES")
    case True
    define b' where "b' = b\<lparr>lines := array_store (lines b) (line_count b)
        (rtrim (strip_ansi (strip_overstrikes (takeWhile (\<lambda>c. c \<noteq> CHR 0x0A) raw)))),
        line_count := line_count b + 1\<rparr>"
    have "load_loop (raw # rest) b = load_loop rest b'"
      using True by (simp add: b'_def Let_def)
    then show ?thesis using Cons [of b'] by (simp add: b'_def)
  next
    case False
    then show ?thesis by simp
  qed
qed

lemma key_codes:
  "key CHR ''q'' = 113" "key CHR ''Q'' = 81" "key CHR ''r'' = 114" "key CHR ''R'' = 82"
  "key CHR ''x'' = 120" "key CHR ''X'' = 88" "key CHR ''v'' = 118" "key CHR ''y'' = 121"
  "key CHR ''l'' = 108" "key CHR ''L'' = 76" "key CHR ''w'' = 119" "key CHR ''W'' = 87"
  "key CHR ''/'' = 47" "key CHR ''n'' = 110" "key CHR ''N'' = 78" "key CHR ''o'' = 111"
  "key CHR ''O'' = 79" "key CHR ''j'' = 106" "key CHR ''k'' = 107" "key CHR ''g'' = 103"
  "key CHR ''G'' = 71" "key CHR ''d'' = 100" "key CHR ''u'' = 117"
  by (simp_all add: key_def)

lemma handle_input_down:
  "ch = 106 \<or> ch = 258 \<Longrightarrow>
   handle_input state running ch max_y typed =
     Some (if scroll_offset (buffers state ! nat (current_buffer state))
                < line_count (buffers state ! nat (current_buffer state)) - 1
           then set_scroll state (scroll_offset (buffers state ! nat (current_buffer state)) + 1)
           else state, running)"
  unfolding handle_input_def key_codes KEY_DOWN_def KEY_UP_def KEY_BTAB_def Let_def
  by (elim disjE) simp_all

lemma handle_input_up:
  "ch = 107 \<or> ch = 259 \<Longrightarrow>
   handle_input state running ch max_y typed =
     Some (if scroll_offset (buffers state ! nat (current_buffer state)) > 0
           then set_scroll state (scroll_offset (buffers state ! nat (current_buffer state)) - 1)
           else state, running)"
  unfolding handle_input_def key_codes KEY_DOWN_def KEY_UP_def KEY_BTAB_def Let_def
  by (elim disjE) simp_all

lemma handle_input_top:
  "handle_input state running 103 max_y typed = Some (set_scroll state 0, running)"
  unfolding handle_input_def key_codes KEY_DOWN_def KEY_UP_def KEY_BTAB_def Let_def
  by simp

lemma handle_input_bottom:
  "handle_input state running 71 max_y typed =
     Some (set_scroll state
             (if line_count (buffers state ! nat (current_buffer state)) - (max_y - 3) < 0 then 0
              else line_count (buffers state ! nat (current_buffer state)) - (max_y - 3)),
           running)"
  unfolding handle_input_def key_codes KEY_DOWN_def KEY_UP_def KEY_BTAB_def Let_def
  by simp

lemma handle_input_half_down:
  "ch = 100 \<or> ch = 4 \<Longrightarrow>
   handle_input state running ch max_y typed =
     Some (set_scroll state
             (max 0 (min (scroll_offset (buffers state ! nat (current_buffer state))
                            + c_div (max_y - 3) 2)
                         (line_count (buffers state ! nat (current_buffer state)) - (max_y - 3)))),
           running)"
  unfolding handle_input_def key_codes KEY_DOWN_def KEY_UP_def KEY_BTAB_def Let_def
  by (elim disjE) (simp_all add: max_def min_def)

lemma handle_input_half_up:
  "ch = 117 \<or> ch = 21 \<Longrightarrow>
   handle_input state running ch max_y typed =
     Some (set_scroll state
             (max 0 (scroll_offset (buffers state ! nat (current_buffer state))
                       - c_div (max_y - 3) 2)),
           running)"
  unfolding handle_input_def key_codes KEY_DOWN_def KEY_UP_def KEY_BTAB_def Let_def
  by (elim disjE) (simp_all add: max_def)

lemma handle_input_search_keys:
  "handle_input state running 110 max_y typed =
     Some (if copy_mode state = 0 then next_match state else state, running)"
  "handle_input state running 78 max_y typed =
     Some (if copy_mode state = 0 then prev_match state else state, running)"
  "handle_input state running 47 max_y typed =
     Some (if copy_mode state = 0 then prompt_search state typed else state, running)"
  unfolding handle_input_def key_codes KEY_DOWN_def KEY_UP_def KEY_BTAB_def Let_def
  by simp_all

lemma c_div_half_nonneg: "- 1 \<le> v \<Longrightarrow> 0 \<le> c_div v 2"
proof -
  assume "- 1 \<le> v"
  then consider "v = - 1" | "v = 0" | "0 < v" by linarith
  then show ?thesis by cases (simp_all add: c_div_def)
qed

lemma c_div_half_nonpos: "v \<le> 0 \<Longrightarrow> c_div v 2 \<le> 0"
proof -
  assume "v \<le> 0"
  then consider "v = 0" | "v < 0" by linarith
  then show ?thesis
  proof cases
    case 1
    then show ?thesis by (simp add: c_div_def)
  next
    case 2
    then have "c_div v 2 = - (\<bar>v\<bar> div 2)" by (simp add: c_div_def)
    then show ?thesis by simp
  qed
qed

text \<open>
  C7, as stated, fails on small screens. On a screen of three rows \<open>visible_lines\<close> is
  \<open>0\<close> and the key \<open>G\<close> sets the scroll offset of a buffer of five lines to \<open>5\<close>. On
  a screen of one row \<open>visible_lines / 2\<close> is \<open>-1\<close> and the key \<open>u\<close> moves the offset of
  that buffer from \<open>4\<close> to \<open>5\<close>.
\<close>

theorem scroll_invariant_counterexample:
  "all_scroll_invariant (sample_state [sample_buffer [''a'', ''b'', ''c'', ''d'', ''e'']] 0)
   \<and> handle_input (sample_state [sample_buffer [''a'', ''b'', ''c'', ''d'', ''e'']] 0)
        1 (key CHR ''G'') 3 [] =
       Some (sample_state [(sample_buffer [''a'', ''b'', ''c'', ''d'', ''e''])\<lparr>scroll_offset := 5\<rparr>] 0, 1)
   \<and> all_scroll_invariant
        (sample_state [(sample_buffer [''a'', ''b'', ''c'', ''d'', ''e''])\<lparr>scroll_offset := 4\<rparr>] 0)
   \<and> handle_input
        (sample_state [(sample_buffer [''a'', ''b'', ''c'', ''d'', ''e''])\<lparr>scroll_offset := 4\<rparr>] 0)
        1 (key CHR ''u'') 1 [] =
       Some (sample_state [(sample_buffer [''a'', ''b'', ''c'', ''d'', ''e''])\<lparr>scroll_offset := 5\<rparr>] 0, 1)
   \<and> \<not> scroll_invariant ((sample_buffer [''a'', ''b'', ''c'', ''d'', ''e''])\<lparr>scroll_offset := 5\<rparr>)"
proof -
  have u: "(117::int) = 117 \<or> (117::int) = 21" by simp
  show ?thesis
    by (simp add: all_scroll_invariant_def scroll_invariant_def sample_state_def sample_buffer_def
        handle_input_bottom handle_input_half_up [OF u] key_codes set_scroll_def Let_def c_div_def)
qed

text \<open>
  C7, amended. \<open>load_file\<close> leaves \<open>scroll_offset = 0\<close>, inside the range. Line up and
  down, jump to top, half page down and the three search keys keep every buffer inside
  \<open>0 \<le> scroll_offset < max(1, line_count)\<close> whatever the height of the screen; half
  page up does on a screen of at least two rows and jump to bottom on a screen of at
  least four rows.
\<close>

theorem scroll_invariant_preserved:
  "fst (load_file b0 path (Some reads)) = 0
   \<and> scroll_offset (snd (load_file b0 path (Some reads))) = 0
   \<and> scroll_invariant (snd (load_file b0 path (Some reads)))
   \<and> (0 \<le> current_buffer state
        \<and> current_buffer state < buffer_count state
        \<and> buffer_count state \<le> int (length (buffers state))
        \<and> all_scroll_invariant state
        \<and> ch \<in> {key CHR ''j'', KEY_DOWN, key CHR ''k'', KEY_UP, key CHR ''g'', key CHR ''G'',
                  key CHR ''d'', 4, key CHR ''u'', 21, key CHR ''n'', key CHR ''N'', key CHR ''/''}
        \<and> (ch = key CHR ''G'' \<longrightarrow> 4 \<le> max_y)
        \<and> (ch = key CHR ''u'' \<or> ch = 21 \<longrightarrow> 2 \<le> max_y)
       \<longrightarrow> (\<exists>state'. handle_input state running ch max_y typed = Some (state', running)
              \<and> all_scroll_invariant state'
              \<and> buffer_count state' = buffer_count state))"
proof (intro conjI impI)
  define b where "b = load_loop reads
                (b0\<lparr>line_count := 0, scroll_offset := 0, filepath := take 1023 path,
                     lang := detect_language path, is_active := 1, is_http_buffer := 0,
                     http_request := []\<rparr>)"
  have lf: "load_file b0 path (Some reads) = (0, b)"
    by (simp add: load_file_def b_def)
  have *: "scroll_offset b = 0" "0 \<le> line_count b"
    using load_loop_fields [of reads "b0\<lparr>line_count := 0, scroll_offset := 0, filepath := take 1023 path,
                     lang := detect_language path, is_active := 1, is_http_buffer := 0,
                     http_request := []\<rparr>"] by (simp_all add: b_def)
  show "fst (load_file b0 path (Some reads)) = 0" by (simp add: lf)
  show "scroll_offset (snd (load_file b0 path (Some reads))) = 0" using * by (simp add: lf)
  show "scroll_invariant (snd (load_file b0 path (Some reads)))"
    using * by (simp add: lf scroll_invariant_def)
next
  assume a: "0 \<le> current_buffer state
        \<and> current_buffer state < buffer_count state
        \<and> buffer_count state \<le> int (length (buffers state))
        \<and> all_scroll_invariant state
        \<and> ch \<in> {key CHR ''j'', KEY_DOWN, key CHR ''k'', KEY_UP, key CHR ''g'', key CHR ''G'',
                  key CHR ''d'', 4, key CHR ''u'', 21, key CHR ''n'', key CHR ''N'', key CHR ''/''}
        \<and> (ch = key CHR ''G'' \<longrightarrow> 4 \<le> max_y)
        \<and> (ch = key CHR ''u'' \<or> ch = 21 \<longrightarrow> 2 \<le> max_y)"
  define buf where "buf = buffers state ! nat (current_buffer state)"
  define vl where "vl = max_y - 3"
  have vlG: "1 \<le> vl" if "ch = 71" using a that by (simp add: vl_def key_codes)
  have vlu: "- 1 \<le> vl" if "ch = 117 \<or> ch = 21" using a that by (auto simp: vl_def key_codes)
  have inv: "all_scroll_invariant state" and c0: "0 \<le> current_buffer state"
    using a by simp_all
  have c1: "nat (current_buffer state) < length (buffers state)"
    using a by linarith
  have "int (nat (current_buffer state)) < buffer_count state" using a by simp
  then have "scroll_invariant buf"
    using inv unfolding all_scroll_invariant_def buf_def by blast
  then have so: "0 \<le> scroll_offset buf" "scroll_offset buf < max 1 (line_count buf)"
    by (simp_all add: scroll_invariant_def)
  note ss = set_scroll_invariant [OF inv c0 c1, folded buf_def]
  have unchanged: "all_scroll_invariant state \<and> buffer_count state = buffer_count state"
    using inv by simp
  have keys: "ch = 106 \<or> ch = 258 \<or> ch = 107 \<or> ch = 259 \<or> ch = 103 \<or> ch = 71 \<or> ch = 100
      \<or> ch = 4 \<or> ch = 117 \<or> ch = 21 \<or> ch = 110 \<or> ch = 78 \<or> ch = 47"
    using a by (auto simp: key_def KEY_DOWN_def KEY_UP_def)
  have res: "\<exists>f. handle_input state running ch max_y typed = Some (f, running)
      \<and> (f = state
          \<or> (\<exists>v. f = set_scroll state v \<and> 0 \<le> v \<and> v < max 1 (line_count buf))
          \<or> f = next_match state \<or> f = prev_match state \<or> f = prompt_search state typed)"
  proof -
    have down: ?thesis if "ch = 106 \<or> ch = 258"
      using so unfolding handle_input_down [OF that] buf_def [symmetric] by auto
    have up: ?thesis if "ch = 107 \<or> ch = 259"
      using so unfolding handle_input_up [OF that] buf_def [symmetric] by auto
    have top: ?thesis if "ch = 103"
      unfolding that handle_input_top by auto
    have bottom: ?thesis if "ch = 71"
      using vlG [OF that] unfolding that handle_input_bottom buf_def [symmetric] vl_def [symmetric]
      by auto
    have hdown: ?thesis if "ch = 100 \<or> ch = 4"
    proof -
      have "max 0 (min (scroll_offset buf + c_div vl 2) (line_count buf - vl))
              < max 1 (line_count buf)"
      proof (cases "1 \<le> vl")
        case True
        then show ?thesis by auto
      next
        case False
        then have "c_div vl 2 \<le> 0" by (intro c_div_half_nonpos) simp
        then show ?thesis using so by auto
      qed
      then show ?thesis
        unfolding handle_input_half_down [OF that] buf_def [symmetric] vl_def [symmetric]
        by auto
    qed
    have hup: ?thesis if "ch = 117 \<or> ch = 21"
    proof -
      have "0 \<le> c_div vl 2" using vlu [OF that] by (rule c_div_half_nonneg)
      then have "max 0 (scroll_offset buf - c_div vl 2) < max 1 (line_count buf)"
        using so by auto
      then show ?thesis
        unfolding handle_input_half_up [OF that] buf_def [symmetric] vl_def [symmetric]
        by auto
    qed
    have srch: ?thesis if "ch = 110 \<or> ch = 78 \<or> ch = 47"
      using that by (elim disjE) (simp_all add: handle_input_search_keys)
    show ?thesis using keys down up top bottom hdown hup srch by blast
  qed
  then obtain f where f: "handle_input state running ch max_y typed = Some (f, running)"
    and cases: "f = state
          \<or> (\<exists>v. f = set_scroll state v \<and> 0 \<le> v \<and> v < max 1 (line_count buf))
          \<or> f = next_match state \<or> f = prev_match state \<or> f = prompt_search state typed"
    by blast
  have "all_scroll_invariant f \<and> buffer_count f = buffer_count state"
    using cases unchanged ss next_match_invariant [OF inv c0 c1]
      prev_match_invariant [OF inv c0 c1] prompt_search_invariant [OF inv c0 c1, of typed]
    by auto
  then show "\<exists>state'. handle_input state running ch max_y typed = Some (state', running)
              \<and> all_scroll_invariant state'
              \<and> buffer_count state' = buffer_count state"
    using f by blast
qed

theorem scroll_invariant_preserved_witness:
  "all_scroll_invariant (sample_state [sample_buffer [''a'', ''b'', ''c'', ''d'', ''e'']] 0)
   \<and> (4::int) \<le> 24
   \<and> (\<exists>state'. handle_input (sample_state [sample_buffer [''a'', ''b'', ''c'', ''d'', ''e'']] 0)
                    1 (key CHR ''G'') 24 [] = Some (state', 1)
          \<and> all_scroll_invariant state')
   \<and> (2::int) \<le> 2
   \<and> (\<exists>state'. handle_input (sample_state [sample_buffer [''a'', ''b'', ''c'', ''d'', ''e'']] 0)
                    1 (key CHR ''u'') 2 [] = Some (state', 1)
          \<and> all_scroll_invariant state')
   \<and> (\<exists>state'. handle_input (sample_state [sample_buffer [''a'', ''b'', ''c'', ''d'', ''e'']] 0)
                    1 (key CHR ''d'') 0 [] = Some (state', 1)
          \<and> all_scroll_invariant state')
   \<and> scroll_invariant (snd (load_file (sample_buffer []) ''notes.md'' (Some [''one'', ''two''])))"
proof -
  let ?st = "sample_state [sample_buffer [''a'', ''b'', ''c'', ''d'', ''e'']] 0"
  have inv: "all_scroll_invariant ?st"
    by (simp add: all_scroll_invariant_def scroll_invariant_def sample_state_def sample_buffer_def)
  have h: "0 \<le> current_buffer ?st" "current_buffer ?st < buffer_count ?st"
    "buffer_count ?st \<le> int (length (buffers ?st))"
    by (simp_all add: sample_state_def)
  have g: "\<exists>state'. handle_input ?st 1 (key CHR ''G'') 24 [] = Some (state', 1)
          \<and> all_scroll_invariant state'"
    and l: "scroll_invariant (snd (load_file (sample_buffer []) ''notes.md'' (Some [''one'', ''two''])))"
    using scroll_invariant_preserved
      [of "sample_buffer []" "''notes.md''" "[''one'', ''two'']" ?st "key CHR ''G''" 24 1 "[]"]
      inv h
    by (auto simp: key_codes)
  have u: "\<exists>state'. handle_input ?st 1 (key CHR ''u'') 2 [] = Some (state', 1)
          \<and> all_scroll_invariant state'"
    using scroll_invariant_preserved
      [of "sample_buffer []" "''notes.md''" "[''one'', ''two'']" ?st "key CHR ''u''" 2 1 "[]"]
      inv h
    by (auto simp: key_codes)
  have d: "\<exists>state'. handle_input ?st 1 (key CHR ''d'') 0 [] = Some (state', 1)
          \<and> all_scroll_invariant state'"
    using scroll_invariant_preserved
      [of "sample_buffer []" "''notes.md''" "[''one'', ''two'']" ?st "key CHR ''d''" 0 1 "[]"]
      inv h
    by (auto simp: key_codes)
  show ?thesis using inv g u d l by simp
qed

end
